theory Spec2Isabelle
  imports Main "HOL-Library.Multiset" "HOL-Library.AList"
begin

section \<open>Data model (database module)\<close>

text \<open>
  \<^verbatim>\<open>interface CreateEvent { title; description; date; time; priority }\<close> and
  \<^verbatim>\<open>interface Event extends CreateEvent { id; completed; created_at; updated_at }\<close>.
  The field \<^verbatim>\<open>id\<close> is named \<open>idE\<close> (\<open>id\<close> is the identity function of HOL).
  Strings are lists of code units; the two accented letters the source uses
  (U+00E1, U+00E3) fit in one 8-bit code unit each. \<^verbatim>\<open>priority\<close> is a JavaScript number
  at run time (the enum is erased), so it is an integer here.
\<close>

record createEvent =
  title :: string
  description :: string
  date :: string
  time :: string
  priority :: int

record event = createEvent +
  idE :: int
  completed :: bool
  created_at :: string
  updated_at :: "string option"

text \<open>
  \<^verbatim>\<open>interface UpdateEvent\<close>: every key is optional; \<open>None\<close> is an absent key.
  \<^verbatim>\<open>markEventAsCompleted\<close> passes \<^verbatim>\<open>{ completed } as any\<close>, so the object may also
  carry \<^verbatim>\<open>completed\<close>.
\<close>

record updateEvent =
  upd_title :: "string option"
  upd_description :: "string option"
  upd_date :: "string option"
  upd_time :: "string option"
  upd_priority :: "int option"
  upd_completed :: "bool option"

text \<open>A reading of the clock, \<^verbatim>\<open>new Date()\<close>: its \<^verbatim>\<open>getTime()\<close> in milliseconds and
  its \<^verbatim>\<open>toISOString()\<close>.\<close>

record jsDate =
  getTime :: int
  toISOString :: string

subsection \<open>Errors\<close>

datatype js_error = InvalidPriorityError int | Error string

text \<open>The decimal numeral \<^verbatim>\<open>${value}\<close> of an integer.\<close>

definition digit :: "nat \<Rightarrow> char" where
  "digit n = ''0123456789'' ! n"

fun showNat :: "nat \<Rightarrow> string" where
  "showNat n = (if n < 10 then [digit n] else showNat (n div 10) @ [digit (n mod 10)])"

declare showNat.simps [simp del]

definition showInt :: "int \<Rightarrow> string" where
  "showInt i = (if i < 0 then CHR ''-'' # showNat (nat (- i)) else showNat (nat i))"

definition legalOptions :: string where
  "legalOptions = ''. Use 1 (pouco importante), 2 (razoavelmente importante) ou 3 (muito importante)''"

fun message :: "js_error \<Rightarrow> string" where
  "message (InvalidPriorityError v) =
     ''Prioridade inv'' @ [CHR 0xE1] @ ''lida: '' @ showInt v @ legalOptions"
| "message (Error m) = m"

definition notFound :: js_error where
  "notFound = Error (''Evento n'' @ [CHR 0xE3] @ ''o encontrado'')"

definition notInitialized :: js_error where
  "notInitialized = Error (''DB n'' @ [CHR 0xE3] @ ''o est'' @ [CHR 0xE1] @ '' inicializado'')"

section \<open>The Record Store (class EventDatabase)\<close>

text \<open>
  The opened object store \<^verbatim>\<open>events\<close> (key path \<^verbatim>\<open>id\<close>, auto-increment): its records in
  ascending key order, its key generator, and the requests issued on it so far. A request
  of the model never fails: the \<^verbatim>\<open>onerror\<close> handlers of the source only forward failures
  of the storage engine itself.
\<close>

datatype request =
    GetAll
  | IndexGetAllDate string
  | IndexGetAllPriority int
  | Get int
  | Add event
  | Put event
  | Delete int

record database =
  records :: "event list"
  nextId :: int
  requests :: "request list"

fun isWrite :: "request \<Rightarrow> bool" where
  "isWrite (Add e) = True"
| "isWrite (Put e) = True"
| "isWrite (Delete i) = True"
| "isWrite r = False"

fun isQuery :: "request \<Rightarrow> bool" where
  "isQuery GetAll = True"
| "isQuery (IndexGetAllDate d) = True"
| "isQuery (IndexGetAllPriority p) = True"
| "isQuery r = False"

definition issue :: "request \<Rightarrow> database \<Rightarrow> database" where
  "issue r d = d\<lparr>requests := requests d @ [r]\<rparr>"

definition validatePriority :: "int \<Rightarrow> js_error + unit" where
  "validatePriority p = (if p \<in> set [1, 2, 3] then Inr () else Inl (InvalidPriorityError p))"

subsection \<open>Sorting\<close>

text \<open>
  \<^verbatim>\<open>String.prototype.localeCompare\<close> compares by the collation of the runtime's locale,
  which is not the order of the code units: punctuation sorts before digits, so that
  \<^verbatim>\<open>'1:00'\<close> comes before \<^verbatim>\<open>'10:00'\<close>. On two strings of one zero-padded format
  (\<^verbatim>\<open>YYYY-MM-DD\<close>, \<^verbatim>\<open>HH:MM\<close>: the values of the date and time inputs of the
  application) the collation is the order of the code units. \<open>localeCompare\<close> below is
  that order, code unit by code unit, a proper prefix first: it stands for the method on
  two strings of one such format, and on no others.
\<close>

fun localeCompare :: "string \<Rightarrow> string \<Rightarrow> int" where
  "localeCompare [] [] = 0"
| "localeCompare [] (y # ys) = - 1"
| "localeCompare (x # xs) [] = 1"
| "localeCompare (x # xs) (y # ys) =
     (if (of_char x :: nat) < of_char y then - 1
      else if (of_char y :: nat) < of_char x then 1
      else localeCompare xs ys)"

text \<open>\<^verbatim>\<open>a.date.localeCompare(b.date) || a.time.localeCompare(b.time)\<close>\<close>

definition compareDateTime :: "event \<Rightarrow> event \<Rightarrow> int" where
  "compareDateTime a b =
     (if localeCompare (date a) (date b) \<noteq> 0 then localeCompare (date a) (date b)
      else localeCompare (time a) (time b))"

definition compareTime :: "event \<Rightarrow> event \<Rightarrow> int" where
  "compareTime a b = localeCompare (time a) (time b)"

text \<open>The two comparison functions over any function \<open>L\<close> in the place of
  \<^verbatim>\<open>localeCompare\<close>.\<close>

definition compareDateTimeBy :: "(string \<Rightarrow> string \<Rightarrow> int) \<Rightarrow> event \<Rightarrow> event \<Rightarrow> int" where
  "compareDateTimeBy L a b =
     (if L (date a) (date b) \<noteq> 0 then L (date a) (date b) else L (time a) (time b))"

definition compareTimeBy :: "(string \<Rightarrow> string \<Rightarrow> int) \<Rightarrow> event \<Rightarrow> event \<Rightarrow> int" where
  "compareTimeBy L a b = L (time a) (time b)"

text \<open>\<^verbatim>\<open>Array.prototype.sort(compareFn)\<close>, a stable sort.\<close>

fun insertSorted :: "('a \<Rightarrow> 'a \<Rightarrow> int) \<Rightarrow> 'a \<Rightarrow> 'a list \<Rightarrow> 'a list" where
  "insertSorted cmp x [] = [x]"
| "insertSorted cmp x (y # ys) =
     (if cmp x y \<le> 0 then x # y # ys else y # insertSorted cmp x ys)"

definition arraySort :: "('a \<Rightarrow> 'a \<Rightarrow> int) \<Rightarrow> 'a list \<Rightarrow> 'a list" where
  "arraySort cmp xs = foldr (insertSorted cmp) xs []"

subsection \<open>Queries\<close>

definition db_getAllEvents :: "database \<Rightarrow> event list \<times> database" where
  "db_getAllEvents d = (arraySort compareDateTime (records d), issue GetAll d)"

definition db_getEventsByDate :: "string \<Rightarrow> database \<Rightarrow> event list \<times> database" where
  "db_getEventsByDate dt d =
     (arraySort compareTime (filter (\<lambda>e. date e = dt) (records d)), issue (IndexGetAllDate dt) d)"

definition db_getEventsByPriority :: "int \<Rightarrow> database \<Rightarrow> (js_error + event list) \<times> database" where
  "db_getEventsByPriority p d =
     (case validatePriority p of
        Inl err \<Rightarrow> (Inl err, d)
      | Inr _ \<Rightarrow>
          (Inr (arraySort compareDateTime (filter (\<lambda>e. priority e = p) (records d))),
           issue (IndexGetAllPriority p) d))"

subsection \<open>Writes\<close>

definition db_addEvent :: "jsDate \<Rightarrow> createEvent \<Rightarrow> database \<Rightarrow> (js_error + int) \<times> database" where
  "db_addEvent now ev d =
     (case validatePriority (priority ev) of
        Inl err \<Rightarrow> (Inl err, d)
      | Inr _ \<Rightarrow>
          (let newEvent = \<lparr>title = title ev, description = description ev, date = date ev,
                            time = time ev, priority = priority ev, idE = nextId d,
                            completed = False, created_at = toISOString now,
                            updated_at = None\<rparr>
           in (Inr (nextId d),
               issue (Add newEvent) (d\<lparr>records := records d @ [newEvent], nextId := nextId d + 1\<rparr>))))"

text \<open>\<^verbatim>\<open>Object.entries(updates).some(([key, value]) => value !== undefined && event[key] !== value)\<close>\<close>

definition differs :: "'a option \<Rightarrow> 'a \<Rightarrow> bool" where
  "differs v cur = (case v of None \<Rightarrow> False | Some x \<Rightarrow> cur \<noteq> x)"

definition needsUpdate :: "event \<Rightarrow> updateEvent \<Rightarrow> bool" where
  "needsUpdate e u \<longleftrightarrow>
     differs (upd_title u) (title e) \<or> differs (upd_description u) (description e) \<or>
     differs (upd_date u) (date e) \<or> differs (upd_time u) (time e) \<or>
     differs (upd_priority u) (priority e) \<or> differs (upd_completed u) (completed e)"

text \<open>\<^verbatim>\<open>{ ...event, ...updates, updated_at: new Date().toISOString() }\<close>\<close>

definition spread :: "'a option \<Rightarrow> 'a \<Rightarrow> 'a" where
  "spread v cur = (case v of None \<Rightarrow> cur | Some x \<Rightarrow> x)"

definition updatedEvent :: "jsDate \<Rightarrow> event \<Rightarrow> updateEvent \<Rightarrow> event" where
  "updatedEvent now e u =
     e\<lparr>title := spread (upd_title u) (title e),
       description := spread (upd_description u) (description e),
       date := spread (upd_date u) (date e),
       time := spread (upd_time u) (time e),
       priority := spread (upd_priority u) (priority e),
       completed := spread (upd_completed u) (completed e),
       updated_at := Some (toISOString now)\<rparr>"

text \<open>\<^verbatim>\<open>store.put(v)\<close> for a record whose key is already in the store.\<close>

definition put :: "event \<Rightarrow> event list \<Rightarrow> event list" where
  "put v rs = map (\<lambda>e. if idE e = idE v then v else e) rs"

definition db_updateEvent ::
  "jsDate \<Rightarrow> int \<Rightarrow> updateEvent \<Rightarrow> database \<Rightarrow> (js_error + unit) \<times> database" where
  "db_updateEvent now i u d =
     (case (case upd_priority u of None \<Rightarrow> Inr () | Some p \<Rightarrow> validatePriority p) of
        Inl err \<Rightarrow> (Inl err, d)
      | Inr _ \<Rightarrow>
          (let d1 = issue (Get i) d in
           case find (\<lambda>e. idE e = i) (records d) of
             None \<Rightarrow> (Inl notFound, d1)
           | Some e \<Rightarrow>
               if needsUpdate e u
               then (Inr (), issue (Put (updatedEvent now e u))
                               (d1\<lparr>records := put (updatedEvent now e u) (records d1)\<rparr>))
               else (Inr (), d1)))"

definition db_deleteEvent :: "int \<Rightarrow> database \<Rightarrow> (js_error + unit) \<times> database" where
  "db_deleteEvent i d =
     (Inr (), issue (Delete i) (d\<lparr>records := filter (\<lambda>e. idE e \<noteq> i) (records d)\<rparr>))"

definition onlyCompleted :: "bool \<Rightarrow> updateEvent" where
  "onlyCompleted c = \<lparr>upd_title = None, upd_description = None, upd_date = None,
                      upd_time = None, upd_priority = None, upd_completed = Some c\<rparr>"

definition db_markEventAsCompleted ::
  "jsDate \<Rightarrow> int \<Rightarrow> bool \<Rightarrow> database \<Rightarrow> (js_error + unit) \<times> database" where
  "db_markEventAsCompleted now i c d = db_updateEvent now i (onlyCompleted c) d"

text \<open>The writes (\<^verbatim>\<open>add\<close>, \<^verbatim>\<open>put\<close>, \<^verbatim>\<open>delete\<close>) and the queries (\<^verbatim>\<open>getAll\<close> on the store or
  on an index) issued so far.\<close>

definition writes :: "database \<Rightarrow> request list" where
  "writes d = filter isWrite (requests d)"

definition queries :: "database \<Rightarrow> request list" where
  "queries d = filter isQuery (requests d)"


section \<open>The Event Store (eventStore.ts)\<close>

text \<open>
  The closure state of \<^verbatim>\<open>useEventStore\<close> (\<^verbatim>\<open>cache\<close>, \<^verbatim>\<open>scheduledChecks\<close>), the published
  snapshot, and the environment the store acts on: the Record Store \<^verbatim>\<open>db\<close> and the pending
  timeouts of the runtime. A pending timeout carries the id its callback closes over, the
  delay \<^verbatim>\<open>setTimeout\<close> was called with (\<open>None\<close> is \<^verbatim>\<open>NaN\<close>, the difference with an Invalid
  Date) and the reading of the clock at that call.
  \<^verbatim>\<open>scheduledChecks\<close> is a \<^verbatim>\<open>Map\<close> and \<^verbatim>\<open>cache\<close> an object used as a dictionary:
  association lists in insertion order.
  \<^verbatim>\<open>CacheEntry.events\<close> is named \<open>entry_events\<close>.
  One operation reads the clock once: \<open>now\<close> is the value of every \<^verbatim>\<open>new Date()\<close> and
  \<^verbatim>\<open>Date.now()\<close> of that operation, and an operation runs to its end before the next starts.
\<close>

record cacheEntry =
  timestamp :: int
  entry_events :: "event list"

record timeout =
  handle :: nat
  event_id :: int
  delay :: "int option"
  setAt :: int

record eventStore =
  isDBReady :: bool
  events :: "event list"
  loading :: bool
  error :: "string option"
  selectedDate :: "string option"
  cache :: "(string \<times> cacheEntry) list"
  scheduledChecks :: "(int \<times> nat) list"
  db :: database
  timers :: "timeout list"
  nextHandle :: nat

definition CACHE_DURATION :: int where
  "CACHE_DURATION = 5000"

definition isCacheValid :: "jsDate \<Rightarrow> (string \<times> cacheEntry) list \<Rightarrow> string \<Rightarrow> bool" where
  "isCacheValid now c key =
     (case map_of c key of
        None \<Rightarrow> False
      | Some entry \<Rightarrow> getTime now - timestamp entry < CACHE_DURATION)"

definition updateCache ::
  "jsDate \<Rightarrow> string \<Rightarrow> event list \<Rightarrow> (string \<times> cacheEntry) list
     \<Rightarrow> (string \<times> cacheEntry) list" where
  "updateCache now key evs c =
     AList.update key \<lparr>timestamp = getTime now, entry_events = evs\<rparr> c"

text \<open>\<^verbatim>\<open>Object.keys(cache).forEach(key => delete cache[key])\<close>\<close>

definition invalidateCache :: "(string \<times> cacheEntry) list \<Rightarrow> (string \<times> cacheEntry) list" where
  "invalidateCache c = fold AList.delete (map fst c) c"

text \<open>
  \<^verbatim>\<open>parseISO\<close> of date-fns is a parameter \<open>P\<close> of the store: the time value of the parsed
  date, \<open>None\<close> for an Invalid Date. \<^verbatim>\<open>isBefore(date, now)\<close> compares the time values and is
  false on an Invalid Date.
\<close>

definition isBefore :: "int option \<Rightarrow> jsDate \<Rightarrow> bool" where
  "isBefore dt now = (case dt of None \<Rightarrow> False | Some t \<Rightarrow> t < getTime now)"

definition eventDateTime :: "(string \<Rightarrow> int option) \<Rightarrow> event \<Rightarrow> int option" where
  "eventDateTime P e = P (date e @ ''T'' @ time e)"

text \<open>The \<^verbatim>\<open>events.map\<close> of \<^verbatim>\<open>checkAndUpdatePastEvents\<close>: \<^verbatim>\<open>updatedEvents\<close> and the ids
  pushed on \<^verbatim>\<open>eventsToUpdate\<close>.\<close>

fun scanPastEvents ::
  "(string \<Rightarrow> int option) \<Rightarrow> jsDate \<Rightarrow> event list \<Rightarrow> event list \<times> int list" where
  "scanPastEvents P now [] = ([], [])"
| "scanPastEvents P now (e # es) =
     (let (us, ids) = scanPastEvents P now es in
      if \<not> completed e then
        (if isBefore (eventDateTime P e) now
         then (e\<lparr>completed := True\<rparr> # us, idE e # ids)
         else (e # us, ids))
      else (e # us, ids))"

text \<open>\<^verbatim>\<open>Promise.all(eventsToUpdate.map(id => db.markEventAsCompleted(id, true)))\<close>: every
  call is issued; the promise rejects with the first rejection.\<close>

fun markAll :: "jsDate \<Rightarrow> int list \<Rightarrow> database \<Rightarrow> js_error option \<times> database" where
  "markAll now [] d = (None, d)"
| "markAll now (i # is) d =
     (let (r, d1) = db_markEventAsCompleted now i True d;
          (rs, d2) = markAll now is d1
      in (case r of Inl err \<Rightarrow> Some err | Inr _ \<Rightarrow> rs, d2))"

definition checkAndUpdatePastEvents ::
  "(string \<Rightarrow> int option) \<Rightarrow> jsDate \<Rightarrow> event list \<Rightarrow> database
     \<Rightarrow> (js_error + event list) \<times> database" where
  "checkAndUpdatePastEvents P now evs d =
     (let (updatedEvents, eventsToUpdate) = scanPastEvents P now evs;
          (r, d1) = markAll now eventsToUpdate d
      in (case r of Some err \<Rightarrow> Inl err | None \<Rightarrow> Inr updatedEvents, d1))"

definition clearTimeout :: "nat \<Rightarrow> timeout list \<Rightarrow> timeout list" where
  "clearTimeout h ts = filter (\<lambda>t. handle t \<noteq> h) ts"

text \<open>\<^verbatim>\<open>if (scheduledChecks.has(id)) { clearTimeout(scheduledChecks.get(id)); scheduledChecks.delete(id); }\<close>\<close>

definition cancelScheduledCheck :: "int \<Rightarrow> eventStore \<Rightarrow> eventStore" where
  "cancelScheduledCheck i st =
     (case map_of (scheduledChecks st) i of
        None \<Rightarrow> st
      | Some h \<Rightarrow> st\<lparr>scheduledChecks := AList.delete i (scheduledChecks st),
                     timers := clearTimeout h (timers st)\<rparr>)"

definition scheduleEventCheck ::
  "(string \<Rightarrow> int option) \<Rightarrow> jsDate \<Rightarrow> event \<Rightarrow> eventStore \<Rightarrow> eventStore" where
  "scheduleEventCheck P now e st =
     (if completed e then st
      else if isBefore (eventDateTime P e) now then st
      else
        (let st1 = cancelScheduledCheck (idE e) st;
             h = nextHandle st1
         in st1\<lparr>scheduledChecks := AList.update (idE e) h (scheduledChecks st1),
                timers := timers st1 @
                  [\<lparr>handle = h, event_id = idE e,
                    delay = map_option (\<lambda>t. t - getTime now) (eventDateTime P e),
                    setAt = getTime now\<rparr>],
                nextHandle := Suc h\<rparr>))"

definition truthy :: "string option \<Rightarrow> bool" where
  "truthy s = (case s of None \<Rightarrow> False | Some v \<Rightarrow> v \<noteq> [])"

text \<open>\<^verbatim>\<open>selectedDate || 'all'\<close>\<close>

definition cacheKey :: "string option \<Rightarrow> string" where
  "cacheKey s = (case s of None \<Rightarrow> ''all'' | Some v \<Rightarrow> if v = [] then ''all'' else v)"

definition queryEvents :: "string option \<Rightarrow> database \<Rightarrow> event list \<times> database" where
  "queryEvents s d =
     (case s of
        None \<Rightarrow> db_getAllEvents d
      | Some v \<Rightarrow> if v = [] then db_getAllEvents d else db_getEventsByDate v d)"

text \<open>The result \<open>Inl err\<close> of an operation of the store is a rejected promise.\<close>

definition refreshEvents ::
  "(string \<Rightarrow> int option) \<Rightarrow> jsDate \<Rightarrow> eventStore \<Rightarrow> (js_error + unit) \<times> eventStore" where
  "refreshEvents P now st =
     (if \<not> isDBReady st then (Inr (), st)
      else if isCacheValid now (cache st) (cacheKey (selectedDate st)) then
        (case map_of (cache st) (cacheKey (selectedDate st)) of
           None \<Rightarrow> (Inr (), st)
         | Some entry \<Rightarrow>
             (case checkAndUpdatePastEvents P now (entry_events entry) (db st) of
                (Inl err, d1) \<Rightarrow> (Inl err, st\<lparr>db := d1\<rparr>)
              | (Inr cachedEvents, d1) \<Rightarrow>
                  (Inr (), st\<lparr>db := d1, events := cachedEvents, loading := False\<rparr>)))
      else
        (let (fetched, d1) = queryEvents (selectedDate st) (db st) in
         case checkAndUpdatePastEvents P now fetched d1 of
           (Inl err, d2) \<Rightarrow>
             (Inr (), st\<lparr>db := d2, error := Some (message err), loading := False\<rparr>)
         | (Inr evs, d2) \<Rightarrow>
             (let st1 = fold (scheduleEventCheck P now) evs (st\<lparr>db := d2\<rparr>)
              in (Inr (), st1\<lparr>cache := updateCache now (cacheKey (selectedDate st)) evs (cache st1),
                              events := evs, loading := False\<rparr>))))"

definition cleanup :: "eventStore \<Rightarrow> eventStore" where
  "cleanup st = st\<lparr>timers := fold clearTimeout (map snd (scheduledChecks st)) (timers st),
                   scheduledChecks := []\<rparr>"

text \<open>\<^verbatim>\<open>catch (error) { set({ error: (error as Error).message, loading: false }) }\<close>\<close>

definition catchError :: "(js_error + unit) \<times> eventStore \<Rightarrow> (js_error + unit) \<times> eventStore" where
  "catchError r =
     (case r of
        (Inl err, st) \<Rightarrow> (Inr (), st\<lparr>error := Some (message err), loading := False\<rparr>)
      | (Inr u, st) \<Rightarrow> (Inr u, st))"

definition initialStore :: "database \<Rightarrow> nat \<Rightarrow> eventStore" where
  "initialStore d h =
     \<lparr>isDBReady = False, events = [], loading = False, error = None, selectedDate = None,
      cache = [], scheduledChecks = [], db = d, timers = [], nextHandle = h\<rparr>"

text \<open>\<open>openError\<close> is the outcome of \<^verbatim>\<open>db.initDB()\<close>: \<open>None\<close> when the database opens.\<close>

definition initializeStore ::
  "(string \<Rightarrow> int option) \<Rightarrow> jsDate \<Rightarrow> js_error option \<Rightarrow> eventStore
     \<Rightarrow> (js_error + unit) \<times> eventStore" where
  "initializeStore P now openError st =
     catchError
       (let st1 = st\<lparr>loading := True\<rparr> in
        case openError of
          Some err \<Rightarrow> (Inl err, st1)
        | None \<Rightarrow> refreshEvents P now (st1\<lparr>isDBReady := True, loading := False\<rparr>))"

definition setSelectedDate ::
  "(string \<Rightarrow> int option) \<Rightarrow> jsDate \<Rightarrow> string option \<Rightarrow> eventStore
     \<Rightarrow> (js_error + unit) \<times> eventStore" where
  "setSelectedDate P now dt st =
     (Inr (), snd (refreshEvents P now (st\<lparr>selectedDate := dt, loading := True\<rparr>)))"

definition fetchEvents ::
  "(string \<Rightarrow> int option) \<Rightarrow> jsDate \<Rightarrow> eventStore \<Rightarrow> (js_error + unit) \<times> eventStore" where
  "fetchEvents P now st =
     (if \<not> isDBReady st then (Inr (), st)
      else catchError (refreshEvents P now (st\<lparr>loading := True, error := None\<rparr>)))"

definition fetchEventsByDate ::
  "(string \<Rightarrow> int option) \<Rightarrow> jsDate \<Rightarrow> string \<Rightarrow> eventStore
     \<Rightarrow> (js_error + unit) \<times> eventStore" where
  "fetchEventsByDate P now dt st =
     (if \<not> isDBReady st then (Inr (), st)
      else catchError
        (refreshEvents P now (st\<lparr>loading := True, error := None, selectedDate := Some dt\<rparr>)))"

definition addEvent ::
  "(string \<Rightarrow> int option) \<Rightarrow> jsDate \<Rightarrow> createEvent \<Rightarrow> eventStore
     \<Rightarrow> (js_error + unit) \<times> eventStore" where
  "addEvent P now ev st =
     (if \<not> isDBReady st then (Inl notInitialized, st)
      else catchError
        (let st1 = st\<lparr>loading := True, error := None\<rparr> in
         case db_addEvent now ev (db st1) of
           (Inl err, d1) \<Rightarrow> (Inl err, st1\<lparr>db := d1\<rparr>)
         | (Inr _, d1) \<Rightarrow>
             refreshEvents P now (st1\<lparr>db := d1, cache := invalidateCache (cache st1)\<rparr>)))"

definition updateEvent ::
  "(string \<Rightarrow> int option) \<Rightarrow> jsDate \<Rightarrow> int \<Rightarrow> updateEvent \<Rightarrow> eventStore
     \<Rightarrow> (js_error + unit) \<times> eventStore" where
  "updateEvent P now i u st =
     (if \<not> isDBReady st then (Inl notInitialized, st)
      else catchError
        (let st1 = st\<lparr>loading := True, error := None\<rparr> in
         case db_updateEvent now i u (db st1) of
           (Inl err, d1) \<Rightarrow> (Inl err, st1\<lparr>db := d1\<rparr>)
         | (Inr _, d1) \<Rightarrow>
             (let st2 = cancelScheduledCheck i (st1\<lparr>db := d1\<rparr>)
              in refreshEvents P now (st2\<lparr>cache := invalidateCache (cache st2)\<rparr>))))"

definition deleteEvent ::
  "(string \<Rightarrow> int option) \<Rightarrow> jsDate \<Rightarrow> int \<Rightarrow> eventStore
     \<Rightarrow> (js_error + unit) \<times> eventStore" where
  "deleteEvent P now i st =
     (if \<not> isDBReady st then (Inl notInitialized, st)
      else catchError
        (let st1 = cancelScheduledCheck i (st\<lparr>loading := True, error := None\<rparr>) in
         case db_deleteEvent i (db st1) of
           (Inl err, d1) \<Rightarrow> (Inl err, st1\<lparr>db := d1\<rparr>)
         | (Inr _, d1) \<Rightarrow>
             refreshEvents P now (st1\<lparr>db := d1, cache := invalidateCache (cache st1)\<rparr>)))"

definition markEventAsCompleted ::
  "(string \<Rightarrow> int option) \<Rightarrow> jsDate \<Rightarrow> int \<Rightarrow> bool \<Rightarrow> eventStore
     \<Rightarrow> (js_error + unit) \<times> eventStore" where
  "markEventAsCompleted P now i c st =
     (if \<not> isDBReady st then (Inl notInitialized, st)
      else catchError
        (let st0 = st\<lparr>loading := True, error := None\<rparr>;
             st1 = (if c then cancelScheduledCheck i st0 else st0) in
         case db_markEventAsCompleted now i c (db st1) of
           (Inl err, d1) \<Rightarrow> (Inl err, st1\<lparr>db := d1\<rparr>)
         | (Inr _, d1) \<Rightarrow>
             refreshEvents P now (st1\<lparr>db := d1, cache := invalidateCache (cache st1)\<rparr>)))"

definition clearError :: "eventStore \<Rightarrow> eventStore" where
  "clearError st = st\<lparr>error := None\<rparr>"

definition clearCache :: "eventStore \<Rightarrow> eventStore" where
  "clearCache st = st\<lparr>cache := invalidateCache (cache st)\<rparr>"

text \<open>
  The pending timeout \<open>h\<close> fires: the runtime drops it and runs the callback of
  \<^verbatim>\<open>scheduleEventCheck\<close>, which stops at the first rejected \<^verbatim>\<open>await\<close>.
\<close>

definition fireTimer ::
  "(string \<Rightarrow> int option) \<Rightarrow> jsDate \<Rightarrow> nat \<Rightarrow> eventStore \<Rightarrow> eventStore" where
  "fireTimer P now h st =
     (case find (\<lambda>t. handle t = h) (timers st) of
        None \<Rightarrow> st
      | Some t \<Rightarrow>
          (let st1 = st\<lparr>timers := clearTimeout h (timers st)\<rparr> in
           case db_markEventAsCompleted now (event_id t) True (db st1) of
             (Inl err, d1) \<Rightarrow> st1\<lparr>db := d1\<rparr>
           | (Inr _, d1) \<Rightarrow>
               (case refreshEvents P now (st1\<lparr>db := d1\<rparr>) of
                  (Inl err, st2) \<Rightarrow> st2
                | (Inr _, st2) \<Rightarrow>
                    st2\<lparr>scheduledChecks := AList.delete (event_id t) (scheduledChecks st2)\<rparr>)))"

text \<open>
  The runtime's side of \<^verbatim>\<open>setTimeout(handler, timeout)\<close> (HTML Standard, timers). The
  argument is converted to a 32-bit signed integer: \<^verbatim>\<open>NaN\<close> becomes 0, any other number
  wraps modulo \<open>2^32\<close> into \<open>- 2^31 .. 2^31 - 1\<close>; a negative result counts as 0. The
  timeout is due that many milliseconds after the call: the runtime runs its callback
  then or later, never before.
\<close>

definition toInt32 :: "int \<Rightarrow> int" where
  "toInt32 n = (let w = n mod 4294967296 in if 2147483648 \<le> w then w - 4294967296 else w)"

definition timerDelay :: "int option \<Rightarrow> int" where
  "timerDelay a = (case a of None \<Rightarrow> 0 | Some n \<Rightarrow> max 0 (toInt32 n))"

definition dueAt :: "timeout \<Rightarrow> int" where
  "dueAt t = setAt t + timerDelay (delay t)"

text \<open>
  The timer task of the runtime for the handle \<open>h\<close> at the reading \<open>now\<close> of the clock:
  nothing happens when no timeout with that handle is pending or when it is not due yet;
  a pending timeout that is due fires.
\<close>

definition timerTask ::
  "(string \<Rightarrow> int option) \<Rightarrow> jsDate \<Rightarrow> nat \<Rightarrow> eventStore \<Rightarrow> eventStore" where
  "timerTask P now h st =
     (case find (\<lambda>t. handle t = h) (timers st) of
        None \<Rightarrow> st
      | Some t \<Rightarrow> if dueAt t \<le> getTime now then fireTimer P now h st else st)"

subsection \<open>Runs of the store\<close>

text \<open>
  An action is a call of one operation of the store, or the firing of a pending timeout.
  A run performs a list of actions, each at its own reading of the clock. A run lets a
  pending timeout fire at any moment after it is armed, also before it is due: the runs
  of the runtime, where a timeout fires through \<open>timerTask\<close>, are among them.
\<close>

datatype action =
    InitializeStore "js_error option"
  | FetchEvents
  | FetchEventsByDate string
  | AddEvent createEvent
  | UpdateEvent int updateEvent
  | DeleteEvent int
  | SetSelectedDate "string option"
  | MarkEventAsCompleted int bool
  | ClearError
  | ClearCache
  | Cleanup
  | TimerFires nat

fun perform :: "(string \<Rightarrow> int option) \<Rightarrow> jsDate \<Rightarrow> action \<Rightarrow> eventStore \<Rightarrow> eventStore" where
  "perform P now (InitializeStore openError) st = snd (initializeStore P now openError st)"
| "perform P now FetchEvents st = snd (fetchEvents P now st)"
| "perform P now (FetchEventsByDate dt) st = snd (fetchEventsByDate P now dt st)"
| "perform P now (AddEvent ev) st = snd (addEvent P now ev st)"
| "perform P now (UpdateEvent i u) st = snd (updateEvent P now i u st)"
| "perform P now (DeleteEvent i) st = snd (deleteEvent P now i st)"
| "perform P now (SetSelectedDate dt) st = snd (setSelectedDate P now dt st)"
| "perform P now (MarkEventAsCompleted i c) st = snd (markEventAsCompleted P now i c st)"
| "perform P now ClearError st = clearError st"
| "perform P now ClearCache st = clearCache st"
| "perform P now Cleanup st = cleanup st"
| "perform P now (TimerFires h) st = fireTimer P now h st"

fun run :: "(string \<Rightarrow> int option) \<Rightarrow> (jsDate \<times> action) list \<Rightarrow> eventStore \<Rightarrow> eventStore" where
  "run P [] st = st"
| "run P ((now, a) # as) st = run P as (perform P now a st)"

fun isMutation :: "action \<Rightarrow> bool" where
  "isMutation (AddEvent ev) = True"
| "isMutation (UpdateEvent i u) = True"
| "isMutation (DeleteEvent i) = True"
| "isMutation (MarkEventAsCompleted i c) = True"
| "isMutation a = False"

text \<open>The keys of the object store are unique and below the key generator.\<close>

definition wf_db :: "database \<Rightarrow> bool" where
  "wf_db d \<longleftrightarrow> distinct (map idE (records d)) \<and> (\<forall>e \<in> set (records d). idE e < nextId d)"

definition ids :: "database \<Rightarrow> int set" where
  "ids d = idE ` set (records d)"

section \<open>Notions of the specification\<close>

text \<open>Lexicographic comparison of two strings by code unit, and the orders on events it
  induces: by (date, time) and by time.\<close>

definition lexLess :: "string \<Rightarrow> string \<Rightarrow> bool" where
  "lexLess a b \<longleftrightarrow> (a, b) \<in> lexord {(x, y). (of_char x :: nat) < of_char y}"

definition dateTimeLe :: "event \<Rightarrow> event \<Rightarrow> bool" where
  "dateTimeLe a b \<longleftrightarrow>
     lexLess (date a) (date b) \<or>
     (date a = date b \<and> (lexLess (time a) (time b) \<or> time a = time b))"

definition timeLe :: "event \<Rightarrow> event \<Rightarrow> bool" where
  "timeLe a b \<longleftrightarrow> lexLess (time a) (time b) \<or> time a = time b"

text \<open>
  The ISO date and time strings of the application: \<^verbatim>\<open>YYYY-MM-DD\<close> and \<^verbatim>\<open>HH:MM\<close>, every
  \<open>d\<close> of the format a decimal digit. A function \<open>L\<close> in the place of \<^verbatim>\<open>localeCompare\<close>
  orders them when, on two dates and on two times, it is negative exactly where the first
  string is lexicographically less, and zero exactly where the two are equal; it may do
  anything on other strings.
\<close>

definition isDigit :: "char \<Rightarrow> bool" where
  "isDigit c \<longleftrightarrow> c \<in> set ''0123456789''"

definition matchesFormat :: "string \<Rightarrow> string \<Rightarrow> bool" where
  "matchesFormat fmt s = list_all2 (\<lambda>f c. if f = CHR ''d'' then isDigit c else c = f) fmt s"

definition isoDate :: "string \<Rightarrow> bool" where
  "isoDate s = matchesFormat ''dddd-dd-dd'' s"

definition isoTime :: "string \<Rightarrow> bool" where
  "isoTime s = matchesFormat ''dd:dd'' s"

definition isoRecords :: "database \<Rightarrow> bool" where
  "isoRecords d \<longleftrightarrow> (\<forall>e \<in> set (records d). isoDate (date e) \<and> isoTime (time e))"

definition ordersISO :: "(string \<Rightarrow> string \<Rightarrow> int) \<Rightarrow> bool" where
  "ordersISO L \<longleftrightarrow>
     (\<forall>a b. (isoDate a \<and> isoDate b) \<or> (isoTime a \<and> isoTime b) \<longrightarrow>
        (L a b < 0 \<longleftrightarrow> lexLess a b) \<and> (L a b = 0 \<longleftrightarrow> a = b))"

text \<open>Every defined field of the update equals the current value of the record.\<close>

definition allEqual :: "event \<Rightarrow> updateEvent \<Rightarrow> bool" where
  "allEqual e u \<longleftrightarrow>
     (\<forall>v. upd_title u = Some v \<longrightarrow> title e = v) \<and>
     (\<forall>v. upd_description u = Some v \<longrightarrow> description e = v) \<and>
     (\<forall>v. upd_date u = Some v \<longrightarrow> date e = v) \<and>
     (\<forall>v. upd_time u = Some v \<longrightarrow> time e = v) \<and>
     (\<forall>v. upd_priority u = Some v \<longrightarrow> priority e = v) \<and>
     (\<forall>v. upd_completed u = Some v \<longrightarrow> completed e = v)"

text \<open>An event that is not completed and whose date and time are strictly before \<open>now\<close>.\<close>

definition isPastDue :: "(string \<Rightarrow> int option) \<Rightarrow> jsDate \<Rightarrow> event \<Rightarrow> bool" where
  "isPastDue P now e \<longleftrightarrow> \<not> completed e \<and> (\<exists>t. eventDateTime P e = Some t \<and> t < getTime now)"

definition markCompleted :: "(string \<Rightarrow> int option) \<Rightarrow> jsDate \<Rightarrow> event \<Rightarrow> event" where
  "markCompleted P now e = (if isPastDue P now e then e\<lparr>completed := True\<rparr> else e)"

text \<open>Two states of the object store with the same keys in the same order.\<close>

definition sameKeys :: "database \<Rightarrow> database \<Rightarrow> bool" where
  "sameKeys d d' \<longleftrightarrow> map idE (records d') = map idE (records d) \<and> nextId d' = nextId d"

text \<open>
  The invariant of the store. Every pending timeout is the one registered in
  \<^verbatim>\<open>scheduledChecks\<close> for its event, its handle was issued by the runtime, its event is in
  the Record Store, and so is every event of a cached snapshot.
\<close>

definition registered :: "eventStore \<Rightarrow> bool" where
  "registered st \<longleftrightarrow>
     (\<forall>t \<in> set (timers st). map_of (scheduledChecks st) (event_id t) = Some (handle t))"

definition freshHandles :: "eventStore \<Rightarrow> bool" where
  "freshHandles st \<longleftrightarrow>
     distinct (map handle (timers st)) \<and> (\<forall>t \<in> set (timers st). handle t < nextHandle st)"

definition consistent :: "eventStore \<Rightarrow> bool" where
  "consistent st \<longleftrightarrow>
     wf_db (db st) \<and> distinct (map event_id (timers st)) \<and> registered st \<and> freshHandles st \<and>
     (\<forall>t \<in> set (timers st). event_id t \<in> ids (db st)) \<and>
     (\<forall>k entry. map_of (cache st) k = Some entry \<longrightarrow> idE ` set (entry_events entry) \<subseteq> ids (db st))"

definition armed :: "(string \<Rightarrow> int option) \<Rightarrow> jsDate \<Rightarrow> event \<Rightarrow> bool" where
  "armed P now e \<longleftrightarrow> \<not> completed e \<and> \<not> isBefore (eventDateTime P e) now"

text \<open>The state \<open>st1\<close> in which a mutation started on \<open>st\<close> reaches
  \<^verbatim>\<open>invalidateCache(); await refreshEvents()\<close>.\<close>

definition beforeRefresh :: "eventStore \<Rightarrow> eventStore \<Rightarrow> bool" where
  "beforeRefresh st st1 \<longleftrightarrow>
     isDBReady st1 \<and> error st1 = None \<and> selectedDate st1 = selectedDate st \<and>
     queries (db st1) = queries (db st)"

text \<open>The Record Store accepts the write of a mutation.\<close>

fun accepted :: "jsDate \<Rightarrow> action \<Rightarrow> eventStore \<Rightarrow> bool" where
  "accepted now (AddEvent ev) st = (\<not> isl (fst (db_addEvent now ev (db st))))"
| "accepted now (UpdateEvent i u) st = (\<not> isl (fst (db_updateEvent now i u (db st))))"
| "accepted now (DeleteEvent i) st = (\<not> isl (fst (db_deleteEvent i (db st))))"
| "accepted now (MarkEventAsCompleted i c) st =
     (\<not> isl (fst (db_markEventAsCompleted now i c (db st))))"
| "accepted now a st = False"

section \<open>Sample data\<close>

definition standup :: event where
  "standup = \<lparr>title = ''Standup'', description = [], date = ''2025-01-10'', time = ''09:00'',
              priority = 2, idE = 1, completed = False,
              created_at = ''2025-01-09T12:00:00.000Z'', updated_at = None\<rparr>"

definition review :: event where
  "review = \<lparr>title = ''Review'', description = ''Q1'', date = ''2025-01-09'', time = ''16:30'',
             priority = 3, idE = 2, completed = False,
             created_at = ''2025-01-09T12:05:00.000Z'', updated_at = None\<rparr>"

text \<open>An event forty days after the stand-up.\<close>

definition webinar :: event where
  "webinar = \<lparr>title = ''Webinar'', description = [], date = ''2025-02-19'', time = ''09:00'',
              priority = 1, idE = 3, completed = False,
              created_at = ''2025-01-09T12:10:00.000Z'', updated_at = None\<rparr>"

definition sampleDb :: database where
  "sampleDb = \<lparr>records = [standup, review], nextId = 3, requests = []\<rparr>"

text \<open>The time values of the sample date-times (UTC), as \<^verbatim>\<open>parseISO\<close> gives them.\<close>

definition sampleParseISO :: "string \<Rightarrow> int option" where
  "sampleParseISO s =
     (if s = ''2025-01-10T09:00'' then Some 1736499600000
      else if s = ''2025-01-09T16:30'' then Some 1736440200000
      else if s = ''2025-02-19T09:00'' then Some 1739955600000
      else None)"

text \<open>A collation that puts the colon before the digits, as the collation of the
  runtime does: the order of the code units after \<^verbatim>\<open>:\<close> and \<^verbatim>\<open>/\<close> have changed places.\<close>

definition swapColon :: "char \<Rightarrow> char" where
  "swapColon c = (if c = CHR '':'' then CHR ''/'' else if c = CHR ''/'' then CHR '':'' else c)"

definition colonFirst :: "string \<Rightarrow> string \<Rightarrow> int" where
  "colonFirst a b = localeCompare (map swapColon a) (map swapColon b)"

definition at0800 :: jsDate where
  "at0800 = \<lparr>getTime = 1736496000000, toISOString = ''2025-01-10T08:00:00.000Z''\<rparr>"


definition at0900 :: jsDate where
  "at0900 = \<lparr>getTime = 1736499600000, toISOString = ''2025-01-10T09:00:00.000Z''\<rparr>"

definition at0901 :: jsDate where
  "at0901 = \<lparr>getTime = 1736499660000, toISOString = ''2025-01-10T09:01:00.000Z''\<rparr>"

definition sameTitle :: updateEvent where
  "sameTitle = \<lparr>upd_title = Some ''Standup'', upd_description = None, upd_date = None,
                upd_time = None, upd_priority = Some 2, upd_completed = None\<rparr>"

definition newTime :: updateEvent where
  "newTime = \<lparr>upd_title = Some ''Standup'', upd_description = None, upd_date = None,
              upd_time = Some ''09:30'', upd_priority = None, upd_completed = None\<rparr>"

definition lowPriority :: createEvent where
  "lowPriority = \<lparr>title = ''Lunch'', description = [], date = ''2025-01-11'', time = ''12:00'',
                  priority = 1\<rparr>"

definition badPriority :: createEvent where
  "badPriority = \<lparr>title = ''Lunch'', description = [], date = ''2025-01-11'', time = ''12:00'',
                  priority = 7\<rparr>"

definition badUpdate :: updateEvent where
  "badUpdate = \<lparr>upd_title = None, upd_description = None, upd_date = None,
                upd_time = None, upd_priority = Some 7, upd_completed = None\<rparr>"

definition at090002 :: jsDate where
  "at090002 = \<lparr>getTime = 1736499602000, toISOString = ''2025-01-10T09:00:02.000Z''\<rparr>"

text \<open>The store after \<^verbatim>\<open>initializeStore()\<close> at 08:00 on the sample database, and the
  timeout it has armed for the stand-up at 09:00.\<close>

definition readyStore :: eventStore where
  "readyStore = run sampleParseISO [(at0800, InitializeStore None)] (initialStore sampleDb 0)"

definition standupTimer :: timeout where
  "standupTimer = \<lparr>handle = 0, event_id = 1, delay = Some 3600000, setAt = 1736496000000\<rparr>"

section \<open>The queries return sorted lists\<close>

lemma localeCompare_neg: "localeCompare a b < 0 \<longleftrightarrow> lexLess a b"
  unfolding lexLess_def
  by (induction a b rule: localeCompare.induct) auto

lemma localeCompare_zero: "localeCompare a b = 0 \<longleftrightarrow> a = b"
  by (induction a b rule: localeCompare.induct) auto

lemma lexLess_irrefl: "\<not> lexLess a a"
  unfolding lexLess_def by (rule lexord_irreflexive) simp

lemma lexLess_trans: "lexLess a b \<Longrightarrow> lexLess b c \<Longrightarrow> lexLess a c"
  unfolding lexLess_def
  by (rule lexord_trans) (auto simp: trans_def)

lemma lexLess_linear: "lexLess a b \<or> a = b \<or> lexLess b a"
  unfolding lexLess_def
  by (rule lexord_linear) auto

lemma localeCompare_le: "localeCompare a b \<le> 0 \<longleftrightarrow> lexLess a b \<or> a = b"
  using localeCompare_neg [of a b] localeCompare_zero [of a b] by linarith

lemma compareDateTime_le: "compareDateTime a b \<le> 0 \<longleftrightarrow> dateTimeLe a b"
  by (auto simp: compareDateTime_def dateTimeLe_def localeCompare_le localeCompare_zero
      lexLess_irrefl)

lemma compareTime_le: "compareTime a b \<le> 0 \<longleftrightarrow> timeLe a b"
  by (simp add: compareTime_def timeLe_def localeCompare_le)

lemma timeLe_trans: "timeLe a b \<Longrightarrow> timeLe b c \<Longrightarrow> timeLe a c"
  unfolding timeLe_def using lexLess_trans [of "time a" "time b" "time c"] by auto

lemma timeLe_linear: "timeLe a b \<or> timeLe b a"
  unfolding timeLe_def using lexLess_linear [of "time a" "time b"] by auto

lemma dateTimeLe_trans: "dateTimeLe a b \<Longrightarrow> dateTimeLe b c \<Longrightarrow> dateTimeLe a c"
  unfolding dateTimeLe_def
  using lexLess_trans [of "date a" "date b" "date c"] lexLess_trans [of "time a" "time b" "time c"]
  by auto

lemma dateTimeLe_linear: "dateTimeLe a b \<or> dateTimeLe b a"
  unfolding dateTimeLe_def
  using lexLess_linear [of "date a" "date b"] lexLess_linear [of "time a" "time b"] by auto

lemma set_insertSorted: "set (insertSorted cmp x xs) = insert x (set xs)"
  by (induction xs) auto

lemma mset_insertSorted: "mset (insertSorted cmp x xs) = add_mset x (mset xs)"
  by (induction xs) auto

lemma mset_arraySort: "mset (arraySort cmp xs) = mset xs"
  by (induction xs) (auto simp: arraySort_def mset_insertSorted)

lemma set_arraySort: "set (arraySort cmp xs) = set xs"
  by (metis mset_arraySort set_mset_mset)

lemma sorted_insertSorted:
  assumes tr: "\<And>a b c. le a b \<Longrightarrow> le b c \<Longrightarrow> le a c"
      and li: "\<And>a b. le a b \<or> le b a"
      and cm: "\<And>a b. cmp a b \<le> 0 \<longleftrightarrow> le a b"
  shows "sorted_wrt le xs \<Longrightarrow> sorted_wrt le (insertSorted cmp x xs)"
proof (induction xs)
  case Nil
  then show ?case by simp
next
  case (Cons y ys)
  show ?case
  proof (cases "cmp x y \<le> 0")
    case True
    then have "le x y" using cm by simp
    then have "\<forall>z \<in> set ys. le x z" using Cons.prems tr by auto
    with True \<open>le x y\<close> Cons.prems show ?thesis by simp
  next
    case False
    then have "le y x" using cm li by blast
    with False Cons show ?thesis by (auto simp: set_insertSorted)
  qed
qed

lemma sorted_arraySort:
  assumes tr: "\<And>a b c. le a b \<Longrightarrow> le b c \<Longrightarrow> le a c"
      and li: "\<And>a b. le a b \<or> le b a"
      and cm: "\<And>a b. cmp a b \<le> 0 \<longleftrightarrow> le a b"
  shows "sorted_wrt le (arraySort cmp xs)"
proof (induction xs)
  case Nil
  show ?case by (simp add: arraySort_def)
next
  case (Cons x xs)
  have "arraySort cmp (x # xs) = insertSorted cmp x (arraySort cmp xs)"
    by (simp add: arraySort_def)
  with Cons sorted_insertSorted [of le cmp, OF tr li cm] show ?case by simp
qed

lemma sorted_byDateTime: "sorted_wrt dateTimeLe (arraySort compareDateTime xs)"
  by (rule sorted_arraySort [OF dateTimeLe_trans dateTimeLe_linear compareDateTime_le])

lemma sorted_byTime: "sorted_wrt timeLe (arraySort compareTime xs)"
  by (rule sorted_arraySort [OF timeLe_trans timeLe_linear compareTime_le])

lemma insertSorted_cong:
  "\<forall>y \<in> set ys. (cmp x y \<le> 0) = (cmp' x y \<le> 0) \<Longrightarrow> insertSorted cmp x ys = insertSorted cmp' x ys"
  by (induction ys) auto

lemma arraySort_cong:
  "\<forall>x \<in> set xs. \<forall>y \<in> set xs. (cmp x y \<le> 0) = (cmp' x y \<le> 0) \<Longrightarrow>
   arraySort cmp xs = arraySort cmp' xs"
proof (induction xs)
  case Nil
  show ?case by (simp add: arraySort_def)
next
  case (Cons x xs)
  then have ih: "arraySort cmp xs = arraySort cmp' xs" by simp
  have "arraySort cmp (x # xs) = insertSorted cmp x (arraySort cmp' xs)"
    by (simp add: arraySort_def ih [unfolded arraySort_def])
  also have "\<dots> = insertSorted cmp' x (arraySort cmp' xs)"
    using Cons.prems by (intro insertSorted_cong) (simp add: set_arraySort)
  finally show ?case by (simp add: arraySort_def)
qed

lemma ordersISO_le:
  assumes "ordersISO L" "(isoDate a \<and> isoDate b) \<or> (isoTime a \<and> isoTime b)"
  shows "L a b \<le> 0 \<longleftrightarrow> localeCompare a b \<le> 0" "L a b = 0 \<longleftrightarrow> a = b"
proof -
  from assms have 1: "L a b < 0 \<longleftrightarrow> lexLess a b" and 2: "L a b = 0 \<longleftrightarrow> a = b"
    unfolding ordersISO_def by blast+
  from 2 show "L a b = 0 \<longleftrightarrow> a = b" .
  from 1 2 show "L a b \<le> 0 \<longleftrightarrow> localeCompare a b \<le> 0"
    unfolding localeCompare_le by linarith
qed

lemma compareDateTimeBy_le:
  assumes "ordersISO L" "isoDate (date a)" "isoDate (date b)" "isoTime (time a)" "isoTime (time b)"
  shows "(compareDateTimeBy L a b \<le> 0) = (compareDateTime a b \<le> 0)"
  using ordersISO_le [OF assms(1), of "date a" "date b"] ordersISO_le [OF assms(1), of "time a" "time b"] assms(2-)
  by (simp add: compareDateTimeBy_def compareDateTime_def localeCompare_zero)

lemma compareTimeBy_le:
  assumes "ordersISO L" "isoTime (time a)" "isoTime (time b)"
  shows "(compareTimeBy L a b \<le> 0) = (compareTime a b \<le> 0)"
  using ordersISO_le [OF assms(1), of "time a" "time b"] assms(2-)
  by (simp add: compareTimeBy_def compareTime_def)

lemma sortBy_model:
  assumes "ordersISO L" "\<forall>e \<in> set xs. isoDate (date e) \<and> isoTime (time e)"
  shows "arraySort (compareDateTimeBy L) xs = arraySort compareDateTime xs"
    and "arraySort (compareTimeBy L) xs = arraySort compareTime xs"
  using assms
  by (auto intro!: arraySort_cong simp: compareDateTimeBy_le compareTimeBy_le)

lemma ordersISO_localeCompare: "ordersISO localeCompare"
  by (simp add: ordersISO_def localeCompare_neg localeCompare_zero)

lemma swapColon_digit: "isDigit c \<Longrightarrow> swapColon c = c"
  by (auto simp: swapColon_def isDigit_def)

lemma localeCompare_map:
  assumes "list_all2 (\<lambda>x y. x = y \<or> (f x = x \<and> f y = y)) a b"
  shows "localeCompare (map f a) (map f b) = localeCompare a b"
  using assms
proof (induction a b rule: list_all2_induct)
  case Nil
  show ?case by simp
next
  case (Cons x xs y ys)
  from Cons.hyps(1) have "(f x = f y \<and> x = y) \<or> (f x = x \<and> f y = y)" by blast
  then show ?case
  proof
    assume "f x = f y \<and> x = y"
    then show ?thesis using Cons.IH by simp
  next
    assume h: "f x = x \<and> f y = y"
    have "localeCompare (f x # map f xs) (f y # map f ys) = localeCompare (x # xs) (y # ys)"
      unfolding conjunct1 [OF h] conjunct2 [OF h] using Cons.IH by simp
    then show ?thesis by simp
  qed
qed

lemma same_format:
  "list_all2 Q fmt a \<Longrightarrow> list_all2 Q fmt b \<Longrightarrow> list_all2 (\<lambda>x y. \<exists>f. Q f x \<and> Q f y) a b"
proof (induction fmt arbitrary: a b)
  case Nil
  then show ?case by simp
next
  case (Cons f fmt)
  from Cons.prems obtain x xs y ys where "a = x # xs" "b = y # ys" "Q f x" "Q f y"
      "list_all2 Q fmt xs" "list_all2 Q fmt ys"
    by (auto simp: list_all2_Cons1)
  with Cons.IH [of xs ys] show ?case by auto
qed

lemma format_shape:
  assumes "matchesFormat fmt a" "matchesFormat fmt b"
  shows "list_all2 (\<lambda>x y. x = y \<or> (swapColon x = x \<and> swapColon y = y)) a b"
  by (rule list_all2_mono [OF same_format [OF assms [unfolded matchesFormat_def]]])
     (auto simp: swapColon_digit split: if_splits)

lemma isoDate_shape:
  assumes "isoDate a" "isoDate b"
  shows "list_all2 (\<lambda>x y. x = y \<or> (swapColon x = x \<and> swapColon y = y)) a b"
  using assms unfolding isoDate_def by (rule format_shape)

lemma isoTime_shape:
  assumes "isoTime a" "isoTime b"
  shows "list_all2 (\<lambda>x y. x = y \<or> (swapColon x = x \<and> swapColon y = y)) a b"
  using assms unfolding isoTime_def by (rule format_shape)

lemma colonFirst_iso:
  assumes "(isoDate a \<and> isoDate b) \<or> (isoTime a \<and> isoTime b)"
  shows "colonFirst a b = localeCompare a b"
  using assms localeCompare_map [OF isoDate_shape, of a b] localeCompare_map [OF isoTime_shape, of a b]
  unfolding colonFirst_def by blast

lemma ordersISO_colonFirst: "ordersISO colonFirst"
  unfolding ordersISO_def
  by (intro allI impI) (simp add: colonFirst_iso localeCompare_neg localeCompare_zero)


text \<open>
  C8. For every state of the Record Store whose records carry ISO date and time strings
  (\<^verbatim>\<open>YYYY-MM-DD\<close>, \<^verbatim>\<open>HH:MM\<close>), \<^verbatim>\<open>getAllEvents()\<close> and \<^verbatim>\<open>getEventsByPriority(p)\<close> return
  their records sorted ascending by (date, time) under lexicographic comparison of the
  date and time strings, and \<^verbatim>\<open>getEventsByDate(d)\<close> returns its records sorted ascending
  by time. Each result is a rearrangement of the records the query selects, and
  \<^verbatim>\<open>getEventsByPriority\<close> returns a list for each of the three priorities. The results are
  the lists the sort computes with any \<^verbatim>\<open>localeCompare\<close> that orders ISO strings
  lexicographically, whatever it does on other strings.
\<close>

theorem C8_queries_sorted:
  assumes "isoRecords d" "ordersISO L"
  shows "fst (db_getAllEvents d) = arraySort (compareDateTimeBy L) (records d) \<and>
     sorted_wrt dateTimeLe (fst (db_getAllEvents d)) \<and>
     mset (fst (db_getAllEvents d)) = mset (records d) \<and>
     (p \<in> {1, 2, 3} \<longrightarrow>
        (\<exists>evs. fst (db_getEventsByPriority p d) = Inr evs \<and>
               evs = arraySort (compareDateTimeBy L) (filter (\<lambda>e. priority e = p) (records d)) \<and>
               sorted_wrt dateTimeLe evs \<and>
               mset evs = mset (filter (\<lambda>e. priority e = p) (records d)))) \<and>
     (\<forall>evs. fst (db_getEventsByPriority p d) = Inr evs \<longrightarrow> sorted_wrt dateTimeLe evs) \<and>
     fst (db_getEventsByDate dt d) =
       arraySort (compareTimeBy L) (filter (\<lambda>e. date e = dt) (records d)) \<and>
     sorted_wrt timeLe (fst (db_getEventsByDate dt d)) \<and>
     mset (fst (db_getEventsByDate dt d)) = mset (filter (\<lambda>e. date e = dt) (records d))"
proof -
  from assms(1) have i: "\<forall>e \<in> set (records d). isoDate (date e) \<and> isoTime (time e)"
      "\<forall>e \<in> set (filter (\<lambda>e. priority e = p) (records d)). isoDate (date e) \<and> isoTime (time e)"
      "\<forall>e \<in> set (filter (\<lambda>e. date e = dt) (records d)). isoDate (date e) \<and> isoTime (time e)"
    by (auto simp: isoRecords_def)
  have "fst (db_getAllEvents d) = arraySort (compareDateTimeBy L) (records d)"
    by (simp add: db_getAllEvents_def sortBy_model(1) [OF assms(2) i(1)])
  moreover have "p \<in> {1, 2, 3} \<longrightarrow>
      fst (db_getEventsByPriority p d) =
        Inr (arraySort (compareDateTimeBy L) (filter (\<lambda>e. priority e = p) (records d)))"
    by (auto simp: db_getEventsByPriority_def validatePriority_def
        sortBy_model(1) [OF assms(2) i(2)])
  moreover have "fst (db_getEventsByDate dt d) =
      arraySort (compareTimeBy L) (filter (\<lambda>e. date e = dt) (records d))"
    by (simp add: db_getEventsByDate_def sortBy_model(2) [OF assms(2) i(3)])
  moreover have "sorted_wrt dateTimeLe (fst (db_getAllEvents d))"
      "mset (fst (db_getAllEvents d)) = mset (records d)"
      "sorted_wrt timeLe (fst (db_getEventsByDate dt d))"
      "mset (fst (db_getEventsByDate dt d)) = mset (filter (\<lambda>e. date e = dt) (records d))"
    by (simp_all add: db_getAllEvents_def db_getEventsByDate_def sorted_byDateTime sorted_byTime
        mset_arraySort)
  moreover have "\<forall>evs. fst (db_getEventsByPriority p d) = Inr evs \<longrightarrow>
      sorted_wrt dateTimeLe evs \<and> mset evs = mset (filter (\<lambda>e. priority e = p) (records d))"
    by (auto simp: db_getEventsByPriority_def validatePriority_def sorted_byDateTime
        mset_arraySort)
  ultimately show ?thesis by simp
qed

theorem C8_queries_sorted_witness:
  "isoRecords sampleDb \<and> ordersISO colonFirst \<and>
   colonFirst ''1:00'' ''10:00'' < 0 \<and> (2::int) \<in> {1, 2, 3} \<and>
   fst (db_getAllEvents sampleDb) = [review, standup] \<and>
   arraySort (compareDateTimeBy colonFirst) (records sampleDb) = [review, standup] \<and>
   sorted_wrt dateTimeLe (fst (db_getAllEvents sampleDb)) \<and>
   fst (db_getEventsByPriority 2 sampleDb) = Inr [standup] \<and>
   (\<exists>evs. fst (db_getEventsByPriority 2 sampleDb) = Inr evs \<and> sorted_wrt dateTimeLe evs) \<and>
   arraySort (compareTimeBy colonFirst) (filter (\<lambda>e. date e = ''2025-01-10'') (records sampleDb)) =
     [standup] \<and>
   sorted_wrt timeLe (fst (db_getEventsByDate ''2025-01-10'' sampleDb))"
proof -
  have i: "isoRecords sampleDb" by code_simp
  note t = C8_queries_sorted [OF i ordersISO_colonFirst, of 2 "''2025-01-10''"]
  have h: "(2::int) \<in> {1, 2, 3}" by simp
  have c: "colonFirst ''1:00'' ''10:00'' < 0" by code_simp
  have a: "fst (db_getAllEvents sampleDb) = [review, standup]" by code_simp
  have b: "fst (db_getEventsByPriority 2 sampleDb) = Inr [standup]" by code_simp
  have e: "fst (db_getEventsByDate ''2025-01-10'' sampleDb) = [standup]" by code_simp
  from t a have 1: "arraySort (compareDateTimeBy colonFirst) (records sampleDb) = [review, standup]"
    by simp
  from t e have 2: "arraySort (compareTimeBy colonFirst)
      (filter (\<lambda>e. date e = ''2025-01-10'') (records sampleDb)) = [standup]"
    by simp
  from t have 3: "sorted_wrt dateTimeLe (fst (db_getAllEvents sampleDb))"
      "sorted_wrt timeLe (fst (db_getEventsByDate ''2025-01-10'' sampleDb))"
    by blast+
  from t h b have 4: "\<exists>evs. fst (db_getEventsByPriority 2 sampleDb) = Inr evs \<and> sorted_wrt dateTimeLe evs"
    by blast
  from i ordersISO_colonFirst c h a b 1 2 3 4 show ?thesis by simp
qed

section \<open>Priority validation\<close>

lemma validatePriority_ok: "p \<in> {1, 2, 3} \<Longrightarrow> validatePriority p = Inr ()"
  by (auto simp: validatePriority_def)

lemma validatePriority_bad: "p \<notin> {1, 2, 3} \<Longrightarrow> validatePriority p = Inl (InvalidPriorityError p)"
  by (auto simp: validatePriority_def)

text \<open>
  C3. For every insert, and for every update that sets \<^verbatim>\<open>priority\<close>: when the value is not
  1, 2 or 3, the operation fails with the \<^verbatim>\<open>InvalidPriorityError\<close> of that value, whose
  message names the value and the three legal options, and the Record Store is left as it
  was (no request is issued on it); when the value is 1, 2 or 3, the insert succeeds (one
  \<^verbatim>\<open>add\<close> is written) and the update never fails with an \<^verbatim>\<open>InvalidPriorityError\<close>.
\<close>

theorem C3_priority_validation:
  "(p \<notin> {1, 2, 3} \<longrightarrow>
      (priority ev = p \<longrightarrow> db_addEvent now ev d = (Inl (InvalidPriorityError p), d)) \<and>
      (upd_priority u = Some p \<longrightarrow> db_updateEvent now i u d = (Inl (InvalidPriorityError p), d)) \<and>
      message (InvalidPriorityError p) =
        ''Prioridade inv'' @ [CHR 0xE1] @ ''lida: '' @ showInt p @
        ''. Use 1 (pouco importante), 2 (razoavelmente importante) ou 3 (muito importante)'') \<and>
   (p \<in> {1, 2, 3} \<longrightarrow>
      (priority ev = p \<longrightarrow>
         (\<exists>d'. db_addEvent now ev d = (Inr (nextId d), d') \<and>
               writes d' = writes d @ [Add (last (records d'))])) \<and>
      (upd_priority u = Some p \<longrightarrow>
         (\<forall>q. fst (db_updateEvent now i u d) \<noteq> Inl (InvalidPriorityError q))))"
proof (cases "p \<in> {1, 2, 3}")
  case True
  have "fst (db_updateEvent now i u d) \<noteq> Inl (InvalidPriorityError q)"
    if "upd_priority u = Some p" for q
    using that validatePriority_ok [OF True]
    by (simp add: db_updateEvent_def Let_def notFound_def split: option.splits)
  moreover have "\<exists>d'. db_addEvent now ev d = (Inr (nextId d), d') \<and>
      writes d' = writes d @ [Add (last (records d'))]" if "priority ev = p"
    using that validatePriority_ok [OF True]
    by (simp add: db_addEvent_def Let_def writes_def issue_def)
  ultimately show ?thesis using True by blast
next
  case False
  have "db_addEvent now ev d = (Inl (InvalidPriorityError p), d)" if "priority ev = p"
    using that validatePriority_bad [OF False] by (simp add: db_addEvent_def)
  moreover have "db_updateEvent now i u d = (Inl (InvalidPriorityError p), d)"
    if "upd_priority u = Some p"
    using that validatePriority_bad [OF False] by (simp add: db_updateEvent_def)
  moreover have "message (InvalidPriorityError p) =
        ''Prioridade inv'' @ [CHR 0xE1] @ ''lida: '' @ showInt p @
        ''. Use 1 (pouco importante), 2 (razoavelmente importante) ou 3 (muito importante)''"
    by (simp add: legalOptions_def)
  ultimately show ?thesis using False by blast
qed

lemma showInt_7: "showInt 7 = ''7''"
  by (simp add: showInt_def showNat.simps digit_def)

theorem C3_priority_validation_witness:
  "(7::int) \<notin> {1, 2, 3} \<and> priority badPriority = 7 \<and> upd_priority badUpdate = Some 7 \<and>
   db_addEvent at0800 badPriority sampleDb = (Inl (InvalidPriorityError 7), sampleDb) \<and>
   db_updateEvent at0800 1 badUpdate sampleDb = (Inl (InvalidPriorityError 7), sampleDb) \<and>
   message (InvalidPriorityError 7) =
     ''Prioridade inv'' @ [CHR 0xE1] @
     ''lida: 7. Use 1 (pouco importante), 2 (razoavelmente importante) ou 3 (muito importante)'' \<and>
   (1::int) \<in> {1, 2, 3} \<and> priority lowPriority = 1 \<and>
   (\<exists>d'. db_addEvent at0800 lowPriority sampleDb = (Inr 3, d') \<and>
         writes d' = writes sampleDb @ [Add (last (records d'))])"
proof -
  note bad = C3_priority_validation [of 7 badPriority at0800 sampleDb badUpdate 1]
  note good = C3_priority_validation [of 1 lowPriority at0800 sampleDb badUpdate 1]
  have a: "(7::int) \<notin> {1, 2, 3}" "priority badPriority = 7" "upd_priority badUpdate = Some 7"
    by (simp_all add: badPriority_def badUpdate_def)
  have b: "(1::int) \<in> {1, 2, 3}" "priority lowPriority = 1" "nextId sampleDb = 3"
    by (simp_all add: lowPriority_def sampleDb_def)
  from bad a have "db_addEvent at0800 badPriority sampleDb = (Inl (InvalidPriorityError 7), sampleDb)"
    and "db_updateEvent at0800 1 badUpdate sampleDb = (Inl (InvalidPriorityError 7), sampleDb)"
    and "message (InvalidPriorityError 7) =
     ''Prioridade inv'' @ [CHR 0xE1] @
     ''lida: 7. Use 1 (pouco importante), 2 (razoavelmente importante) ou 3 (muito importante)''"
    by (simp_all add: showInt_7)
  moreover from good b have "\<exists>d'. db_addEvent at0800 lowPriority sampleDb = (Inr 3, d') \<and>
         writes d' = writes sampleDb @ [Add (last (records d'))]"
    by simp
  ultimately show ?thesis using a b by simp
qed

section \<open>Updates write only on a change\<close>

lemma needsUpdate_iff: "needsUpdate e u \<longleftrightarrow> \<not> allEqual e u"
  by (auto simp: needsUpdate_def allEqual_def differs_def split: option.splits)

lemma find_idE: "find (\<lambda>e. idE e = i) rs = Some e \<Longrightarrow> idE e = i \<and> e \<in> set rs"
  by (induction rs) (auto split: if_splits)

lemma find_idE_None: "find (\<lambda>e. idE e = i) rs = None \<longleftrightarrow> i \<notin> idE ` set rs"
  by (induction rs) auto

lemma find_put:
  "find (\<lambda>e. idE e = i) rs = Some e \<Longrightarrow> idE v = i \<Longrightarrow> find (\<lambda>e. idE e = i) (put v rs) = Some v"
  by (induction rs) (auto simp: put_def split: if_splits)

lemma idE_updatedEvent: "idE (updatedEvent now e u) = idE e"
  by (simp add: updatedEvent_def)

text \<open>
  C4. For every stored event with key \<open>i\<close>: \<^verbatim>\<open>updateEvent(i, updates)\<close> succeeds exactly
  when the priority of the update, if it sets one, is 1, 2 or 3. An update whose defined
  fields all equal the stored values (the stored priority being 1, 2 or 3) succeeds,
  writes nothing and leaves the record, its \<^verbatim>\<open>updated_at\<close> too, as it was. Whenever an
  update succeeds: if every defined field equals the stored value, nothing is written and
  the record is unchanged; if at least one defined field differs, one \<^verbatim>\<open>put\<close> is written
  and the stored record carries the current timestamp as \<^verbatim>\<open>updated_at\<close>.
\<close>

theorem C4_update_writes_only_on_change:
  assumes stored: "find (\<lambda>e. idE e = i) (records d) = Some e"
  shows
    "(fst (db_updateEvent now i u d) = Inr () \<longleftrightarrow>
        (\<forall>p. upd_priority u = Some p \<longrightarrow> p \<in> {1, 2, 3})) \<and>
     (allEqual e u \<and> priority e \<in> {1, 2, 3} \<longrightarrow>
        fst (db_updateEvent now i u d) = Inr () \<and>
        writes (snd (db_updateEvent now i u d)) = writes d \<and>
        records (snd (db_updateEvent now i u d)) = records d) \<and>
     (fst (db_updateEvent now i u d) = Inr () \<longrightarrow>
        (if allEqual e u
         then writes (snd (db_updateEvent now i u d)) = writes d \<and>
              records (snd (db_updateEvent now i u d)) = records d \<and>
              find (\<lambda>e. idE e = i) (records (snd (db_updateEvent now i u d))) = Some e
         else writes (snd (db_updateEvent now i u d)) = writes d @ [Put (updatedEvent now e u)] \<and>
              find (\<lambda>e. idE e = i) (records (snd (db_updateEvent now i u d))) =
                Some (updatedEvent now e u) \<and>
              updated_at (updatedEvent now e u) = Some (toISOString now)))"
proof (cases "\<forall>p. upd_priority u = Some p \<longrightarrow> p \<in> {1, 2, 3}")
  case valid: True
  have v: "(case upd_priority u of None \<Rightarrow> Inr () | Some p \<Rightarrow> validatePriority p) = Inr ()"
    using valid validatePriority_ok by (cases "upd_priority u") auto
  have i: "idE (updatedEvent now e u) = i"
    using find_idE [OF stored] by (simp add: idE_updatedEvent)
  show ?thesis
  proof (cases "allEqual e u")
    case True
    then have "\<not> needsUpdate e u" by (simp add: needsUpdate_iff)
    then have "db_updateEvent now i u d = (Inr (), issue (Get i) d)"
      using v stored by (simp add: db_updateEvent_def Let_def)
    with True stored valid show ?thesis by (simp add: issue_def writes_def)
  next
    case False
    then have n: "needsUpdate e u" by (simp add: needsUpdate_iff)
    let ?v = "updatedEvent now e u"
    have "db_updateEvent now i u d =
        (Inr (), issue (Put ?v) ((issue (Get i) d)\<lparr>records := put ?v (records (issue (Get i) d))\<rparr>))"
      using v stored n by (simp add: db_updateEvent_def Let_def)
    moreover have "find (\<lambda>e. idE e = i) (put ?v (records d)) = Some ?v"
      by (rule find_put [OF stored i])
    moreover have "updated_at ?v = Some (toISOString now)"
      by (simp add: updatedEvent_def)
    ultimately show ?thesis using False valid by (simp add: issue_def writes_def)
  qed
next
  case False
  then obtain p where p: "upd_priority u = Some p" "p \<notin> {1, 2, 3}" by blast
  then have r: "db_updateEvent now i u d = (Inl (InvalidPriorityError p), d)"
    using validatePriority_bad [OF p(2)] by (simp add: db_updateEvent_def)
  have "\<not> (allEqual e u \<and> priority e \<in> {1, 2, 3})"
    using p by (auto simp: allEqual_def)
  with False r show ?thesis by simp
qed

theorem C4_update_writes_only_on_change_witness:
  "find (\<lambda>e. idE e = 1) (records sampleDb) = Some standup \<and>
   allEqual standup sameTitle \<and> priority standup \<in> {1, 2, 3} \<and> \<not> allEqual standup newTime \<and>
   fst (db_updateEvent at0800 1 sameTitle sampleDb) = Inr () \<and>
   writes (snd (db_updateEvent at0800 1 sameTitle sampleDb)) = writes sampleDb \<and>
   records (snd (db_updateEvent at0800 1 sameTitle sampleDb)) = records sampleDb \<and>
   fst (db_updateEvent at0800 1 newTime sampleDb) = Inr () \<and>
   writes (snd (db_updateEvent at0800 1 newTime sampleDb)) =
     writes sampleDb @ [Put (updatedEvent at0800 standup newTime)] \<and>
   find (\<lambda>e. idE e = 1) (records (snd (db_updateEvent at0800 1 newTime sampleDb))) =
     Some (updatedEvent at0800 standup newTime) \<and>
   updated_at (updatedEvent at0800 standup newTime) = Some ''2025-01-10T08:00:00.000Z'' \<and>
   fst (db_updateEvent at0800 1 badUpdate sampleDb) \<noteq> Inr ()"
proof -
  have s: "find (\<lambda>e. idE e = 1) (records sampleDb) = Some standup"
    by (simp add: sampleDb_def standup_def)
  have v: "\<forall>p. upd_priority newTime = Some p \<longrightarrow> p \<in> {1, 2, 3}"
    "\<not> (\<forall>p. upd_priority badUpdate = Some p \<longrightarrow> p \<in> {1, 2, 3})"
    by (simp_all add: newTime_def badUpdate_def)
  have e: "allEqual standup sameTitle" "priority standup \<in> {1, 2, 3}"
    "\<not> allEqual standup newTime"
    by (simp_all add: allEqual_def standup_def sameTitle_def newTime_def)
  have t: "toISOString at0800 = ''2025-01-10T08:00:00.000Z''"
    by (simp add: at0800_def)
  note same = C4_update_writes_only_on_change [OF s, of at0800 sameTitle]
  note new = C4_update_writes_only_on_change [OF s, of at0800 newTime]
  note bad = C4_update_writes_only_on_change [OF s, of at0800 badUpdate]
  from same e(1,2) have 1: "fst (db_updateEvent at0800 1 sameTitle sampleDb) = Inr ()"
    "writes (snd (db_updateEvent at0800 1 sameTitle sampleDb)) = writes sampleDb"
    "records (snd (db_updateEvent at0800 1 sameTitle sampleDb)) = records sampleDb"
    by blast+
  from new v(1) have 2: "fst (db_updateEvent at0800 1 newTime sampleDb) = Inr ()" by blast
  with new e(3) have 3: "writes (snd (db_updateEvent at0800 1 newTime sampleDb)) =
     writes sampleDb @ [Put (updatedEvent at0800 standup newTime)]"
    "find (\<lambda>e. idE e = 1) (records (snd (db_updateEvent at0800 1 newTime sampleDb))) =
     Some (updatedEvent at0800 standup newTime)"
    "updated_at (updatedEvent at0800 standup newTime) = Some (toISOString at0800)"
    by simp_all
  from bad v(2) have 4: "fst (db_updateEvent at0800 1 badUpdate sampleDb) \<noteq> Inr ()" by blast
  from s e 1 2 3 4 t show ?thesis by simp
qed

section \<open>The reconcile pass\<close>

lemma map_idE_put: "map idE (put v rs) = map idE rs"
  by (induction rs) (auto simp: put_def)

lemma sameKeys_refl: "sameKeys d d"
  by (simp add: sameKeys_def)

lemma sameKeys_trans: "sameKeys a b \<Longrightarrow> sameKeys b c \<Longrightarrow> sameKeys a c"
  by (simp add: sameKeys_def)

lemma sameKeys_issue: "sameKeys d (issue r d)"
  by (simp add: sameKeys_def issue_def)

lemma sameKeys_ids: "sameKeys d d' \<Longrightarrow> ids d' = ids d"
  unfolding sameKeys_def ids_def by (metis list.set_map)

lemma sameKeys_wf: "sameKeys d d' \<Longrightarrow> wf_db d \<Longrightarrow> wf_db d'"
  unfolding sameKeys_def wf_db_def by (metis (no_types, lifting) image_iff list.set_map)

lemma sameKeys_updateEvent: "sameKeys d (snd (db_updateEvent now i u d))"
  by (auto simp: db_updateEvent_def Let_def sameKeys_def issue_def map_idE_put
      split: sum.splits option.splits)

lemma sameKeys_markEventAsCompleted: "sameKeys d (snd (db_markEventAsCompleted now i c d))"
  by (simp add: db_markEventAsCompleted_def sameKeys_updateEvent)

lemma completed_updatedEvent: "completed (updatedEvent now e (onlyCompleted c)) = c"
  by (simp add: updatedEvent_def onlyCompleted_def spread_def)

lemma needsUpdate_onlyCompleted: "needsUpdate e (onlyCompleted c) \<longleftrightarrow> completed e \<noteq> c"
  by (simp add: needsUpdate_def onlyCompleted_def differs_def)

lemma db_markEventAsCompleted_eq:
  "db_markEventAsCompleted now i c d =
     (case find (\<lambda>e. idE e = i) (records d) of
        None \<Rightarrow> (Inl notFound, issue (Get i) d)
      | Some e \<Rightarrow>
          if completed e \<noteq> c
          then (Inr (), issue (Put (updatedEvent now e (onlyCompleted c)))
                          ((issue (Get i) d)\<lparr>records := put (updatedEvent now e (onlyCompleted c)) (records d)\<rparr>))
          else (Inr (), issue (Get i) d))"
proof -
  have "upd_priority (onlyCompleted c) = None" by (simp add: onlyCompleted_def)
  then show ?thesis
    by (simp add: db_markEventAsCompleted_def db_updateEvent_def Let_def issue_def
        needsUpdate_onlyCompleted split: option.splits)
qed

lemma markEventAsCompleted_result:
  "fst (db_markEventAsCompleted now i c d) = (if i \<in> ids d then Inr () else Inl notFound)"
proof (cases "find (\<lambda>e. idE e = i) (records d)")
  case None
  moreover from None have "i \<notin> ids d" by (simp add: find_idE_None ids_def)
  ultimately show ?thesis by (simp add: db_markEventAsCompleted_eq)
next
  case (Some e)
  then have "i \<in> ids d" using find_idE [OF Some] by (auto simp: ids_def)
  with Some show ?thesis by (simp add: db_markEventAsCompleted_eq)
qed

lemma sameKeys_markAll: "sameKeys d (snd (markAll now js d))"
proof (induction js arbitrary: d)
  case Nil
  show ?case by (simp add: sameKeys_refl)
next
  case (Cons i js)
  obtain r d1 where a: "db_markEventAsCompleted now i True d = (r, d1)" by (cases "db_markEventAsCompleted now i True d")
  obtain rs d2 where b: "markAll now js d1 = (rs, d2)" by (cases "markAll now js d1")
  have "sameKeys d d1" using sameKeys_markEventAsCompleted [of d now i True] a by simp
  moreover have "sameKeys d1 d2" using Cons [of d1] b by simp
  ultimately show ?case using a b by (simp add: sameKeys_trans)
qed

lemma markAll_result:
  "fst (markAll now js d) = (if set js \<subseteq> ids d then None else Some notFound)"
proof (induction js arbitrary: d)
  case Nil
  show ?case by simp
next
  case (Cons i js)
  obtain r d1 where a: "db_markEventAsCompleted now i True d = (r, d1)" by (cases "db_markEventAsCompleted now i True d")
  obtain rs d2 where b: "markAll now js d1 = (rs, d2)" by (cases "markAll now js d1")
  have k: "ids d1 = ids d" using sameKeys_markEventAsCompleted [of d now i True] a by (simp add: sameKeys_ids)
  have r: "r = (if i \<in> ids d then Inr () else Inl notFound)"
    using markEventAsCompleted_result [of now i True d] a by simp
  have rs: "rs = (if set js \<subseteq> ids d then None else Some notFound)"
    using Cons [of d1] b k by simp
  show ?case using a b r rs by simp
qed

lemma isBefore_iff: "isBefore dt now \<longleftrightarrow> (\<exists>t. dt = Some t \<and> t < getTime now)"
  by (simp add: isBefore_def split: option.splits)

lemma scanPastEvents_eq:
  "scanPastEvents P now evs =
     (map (markCompleted P now) evs, map idE (filter (isPastDue P now) evs))"
  by (induction evs) (auto simp: markCompleted_def isPastDue_def isBefore_iff)

lemma checkAndUpdatePastEvents_eq:
  "checkAndUpdatePastEvents P now evs d =
     (if \<forall>e \<in> set evs. isPastDue P now e \<longrightarrow> idE e \<in> ids d
      then Inr (map (markCompleted P now) evs) else Inl notFound,
      snd (markAll now (map idE (filter (isPastDue P now) evs)) d))"
proof -
  obtain r d1 where a: "markAll now (map idE (filter (isPastDue P now) evs)) d = (r, d1)"
    by (cases "markAll now (map idE (filter (isPastDue P now) evs)) d")
  have "r = (if set (map idE (filter (isPastDue P now) evs)) \<subseteq> ids d then None else Some notFound)"
    using markAll_result [of now "map idE (filter (isPastDue P now) evs)" d] a by simp
  moreover have "set (map idE (filter (isPastDue P now) evs)) \<subseteq> ids d \<longleftrightarrow>
      (\<forall>e \<in> set evs. isPastDue P now e \<longrightarrow> idE e \<in> ids d)"
    by auto
  ultimately show ?thesis using a
    by (simp add: checkAndUpdatePastEvents_def scanPastEvents_eq)
qed

text \<open>With unique keys, a successful markEventAsCompleted(i, true) leaves every record of key i completed.\<close>

lemma find_distinct:
  "distinct (map idE rs) \<Longrightarrow> find (\<lambda>e. idE e = i) rs = Some e \<Longrightarrow> r \<in> set rs \<Longrightarrow> idE r = i \<Longrightarrow> r = e"
  by (induction rs) (auto split: if_splits dest: find_idE)

lemma completed_put:
  "r \<in> set (put v rs) \<Longrightarrow> r = v \<or> (r \<in> set rs \<and> idE r \<noteq> idE v)"
  by (auto simp: put_def split: if_splits)

lemma markEventAsCompleted_completed:
  assumes "wf_db d" "r \<in> set (records (snd (db_markEventAsCompleted now i True d)))" "idE r = i"
  shows "completed r"
proof (cases "find (\<lambda>e. idE e = i) (records d)")
  case None
  then have "records (snd (db_markEventAsCompleted now i True d)) = records d"
    by (simp add: db_markEventAsCompleted_eq issue_def)
  with assms None show ?thesis by (auto simp: find_idE_None)
next
  case (Some e)
  show ?thesis
  proof (cases "completed e")
    case True
    then have "records (snd (db_markEventAsCompleted now i True d)) = records d"
      using Some
      by (simp add: db_markEventAsCompleted_eq issue_def)
    with assms have "r = e" using find_distinct [OF _ Some] by (simp add: wf_db_def)
    with True show ?thesis by simp
  next
    case False
    let ?v = "updatedEvent now e (onlyCompleted True)"
    have "records (snd (db_markEventAsCompleted now i True d)) = put ?v (records d)"
      using Some False
      by (simp add: db_markEventAsCompleted_eq issue_def)
    with assms(2) have "r = ?v \<or> idE r \<noteq> idE ?v" using completed_put by auto
    moreover have "idE ?v = i" using find_idE [OF Some] by (simp add: idE_updatedEvent)
    ultimately show ?thesis using assms(3) by (auto simp: completed_updatedEvent)
  qed
qed

text \<open>Completed records stay completed under markEventAsCompleted(j, true).\<close>

lemma markEventAsCompleted_keeps:
  assumes "\<forall>r \<in> set (records d). idE r = i \<longrightarrow> completed r"
      and "r \<in> set (records (snd (db_markEventAsCompleted now j True d)))" "idE r = i"
  shows "completed r"
proof (cases "find (\<lambda>e. idE e = j) (records d)")
  case None
  then have "records (snd (db_markEventAsCompleted now j True d)) = records d"
    by (simp add: db_markEventAsCompleted_eq issue_def)
  with assms show ?thesis by auto
next
  case (Some e)
  let ?v = "updatedEvent now e (onlyCompleted True)"
  have "records (snd (db_markEventAsCompleted now j True d)) = records d \<or>
        records (snd (db_markEventAsCompleted now j True d)) = put ?v (records d)"
    using Some by (simp add: db_markEventAsCompleted_eq issue_def)
  then show ?thesis
  proof
    assume "records (snd (db_markEventAsCompleted now j True d)) = records d"
    with assms show ?thesis by auto
  next
    assume "records (snd (db_markEventAsCompleted now j True d)) = put ?v (records d)"
    with assms(2) have "r = ?v \<or> r \<in> set (records d)" using completed_put by auto
    with assms(1,3) show ?thesis by (auto simp: completed_updatedEvent)
  qed
qed

lemma markAll_keeps:
  "\<forall>r \<in> set (records d). idE r = i \<longrightarrow> completed r \<Longrightarrow>
   \<forall>r \<in> set (records (snd (markAll now js d))). idE r = i \<longrightarrow> completed r"
proof (induction js arbitrary: d)
  case Nil
  then show ?case by simp
next
  case (Cons j js)
  obtain r d1 where a: "db_markEventAsCompleted now j True d = (r, d1)" by (cases "db_markEventAsCompleted now j True d")
  obtain rs d2 where b: "markAll now js d1 = (rs, d2)" by (cases "markAll now js d1")
  have "\<forall>r \<in> set (records d1). idE r = i \<longrightarrow> completed r"
    using markEventAsCompleted_keeps [OF Cons.prems, of _ now j] a by auto
  from Cons.IH [OF this] show ?case using a b by simp
qed

lemma markAll_completed:
  "wf_db d \<Longrightarrow> i \<in> set js \<Longrightarrow>
   \<forall>r \<in> set (records (snd (markAll now js d))). idE r = i \<longrightarrow> completed r"
proof (induction js arbitrary: d)
  case Nil
  then show ?case by simp
next
  case (Cons j js)
  obtain r d1 where a: "db_markEventAsCompleted now j True d = (r, d1)" by (cases "db_markEventAsCompleted now j True d")
  obtain rs d2 where b: "markAll now js d1 = (rs, d2)" by (cases "markAll now js d1")
  have w: "wf_db d1" using sameKeys_markEventAsCompleted [of d now j True] a Cons.prems(1)
    by (auto intro: sameKeys_wf)
  show ?case
  proof (cases "i = j")
    case True
    have "\<forall>r \<in> set (records d1). idE r = i \<longrightarrow> completed r"
      using markEventAsCompleted_completed [OF Cons.prems(1), of _ now j] a True by auto
    from markAll_keeps [OF this, of now js] show ?thesis using a b by simp
  next
    case False
    with Cons.prems have "i \<in> set js" by simp
    from Cons.IH [OF w this] show ?thesis using a b by simp
  qed
qed


lemma sample_pastDue:
  "isPastDue sampleParseISO at0800 review" "\<not> isPastDue sampleParseISO at0800 standup"
  by (simp_all add: isPastDue_def eventDateTime_def sampleParseISO_def at0800_def review_def
      standup_def)

lemma sample_wf: "wf_db sampleDb"
  by (simp add: wf_db_def sampleDb_def standup_def review_def)

text \<open>
  C10. For every input list and every current time, the in-memory result of
  \<^verbatim>\<open>checkAndUpdatePastEvents\<close> (its \<^verbatim>\<open>updatedEvents\<close>, the list it returns) has the length and
  the order of the input; each element equals the input element at its position in every
  field except possibly \<^verbatim>\<open>completed\<close>, and \<^verbatim>\<open>completed\<close> is never changed from true to false.
\<close>

theorem C10_reconcile_frame:
  "length (fst (scanPastEvents P now evs)) = length evs \<and>
   (\<forall>k < length evs.
      fst (scanPastEvents P now evs) ! k =
        (evs ! k)\<lparr>completed := completed (fst (scanPastEvents P now evs) ! k)\<rparr> \<and>
      (completed (evs ! k) \<longrightarrow> completed (fst (scanPastEvents P now evs) ! k))) \<and>
   (\<forall>ys. fst (checkAndUpdatePastEvents P now evs d) = Inr ys \<longrightarrow>
      ys = fst (scanPastEvents P now evs))"
proof -
  have s: "fst (scanPastEvents P now evs) = map (markCompleted P now) evs"
    by (simp add: scanPastEvents_eq)
  have m: "markCompleted P now e = e\<lparr>completed := completed (markCompleted P now e)\<rparr> \<and>
      (completed e \<longrightarrow> completed (markCompleted P now e))" for e
    by (simp add: markCompleted_def)
  have "length (fst (scanPastEvents P now evs)) = length evs"
    by (simp add: s)
  moreover have "\<forall>k < length evs.
      fst (scanPastEvents P now evs) ! k =
        (evs ! k)\<lparr>completed := completed (fst (scanPastEvents P now evs) ! k)\<rparr> \<and>
      (completed (evs ! k) \<longrightarrow> completed (fst (scanPastEvents P now evs) ! k))"
    using m by (simp add: s)
  moreover have "\<forall>ys. fst (checkAndUpdatePastEvents P now evs d) = Inr ys \<longrightarrow>
      ys = fst (scanPastEvents P now evs)"
    by (simp add: s checkAndUpdatePastEvents_eq)
  ultimately show ?thesis by blast
qed

theorem C10_reconcile_frame_witness:
  "(1::nat) < length [standup, review] \<and>
   fst (checkAndUpdatePastEvents sampleParseISO at0800 [standup, review] sampleDb) =
     Inr (fst (scanPastEvents sampleParseISO at0800 [standup, review])) \<and>
   length (fst (scanPastEvents sampleParseISO at0800 [standup, review])) = 2 \<and>
   fst (scanPastEvents sampleParseISO at0800 [standup, review]) ! 1 =
     review\<lparr>completed := completed (fst (scanPastEvents sampleParseISO at0800 [standup, review]) ! 1)\<rparr> \<and>
   fst (scanPastEvents sampleParseISO at0800 [standup, review]) ! 1 = review\<lparr>completed := True\<rparr>"
proof -
  note t = C10_reconcile_frame [of sampleParseISO at0800 "[standup, review]" sampleDb]
  have r: "fst (checkAndUpdatePastEvents sampleParseISO at0800 [standup, review] sampleDb) =
     Inr [standup, review\<lparr>completed := True\<rparr>]"
    by code_simp
  with t have s: "fst (scanPastEvents sampleParseISO at0800 [standup, review]) =
     [standup, review\<lparr>completed := True\<rparr>]"
    by simp
  from t have "fst (scanPastEvents sampleParseISO at0800 [standup, review]) ! 1 =
     ([standup, review] ! 1)\<lparr>completed := completed (fst (scanPastEvents sampleParseISO at0800 [standup, review]) ! 1)\<rparr>"
    by simp
  with r s show ?thesis by simp
qed

section \<open>The invariant of the store\<close>

subsection \<open>Timers\<close>

lemma cancel_frame [simp]:
  "db (cancelScheduledCheck i st) = db st"
  "cache (cancelScheduledCheck i st) = cache st"
  "isDBReady (cancelScheduledCheck i st) = isDBReady st"
  "events (cancelScheduledCheck i st) = events st"
  "loading (cancelScheduledCheck i st) = loading st"
  "error (cancelScheduledCheck i st) = error st"
  "selectedDate (cancelScheduledCheck i st) = selectedDate st"
  "nextHandle (cancelScheduledCheck i st) = nextHandle st"
  by (simp_all add: cancelScheduledCheck_def split: option.splits)

lemma cancel_timers_subset: "set (timers (cancelScheduledCheck i st)) \<subseteq> set (timers st)"
  by (auto simp: cancelScheduledCheck_def clearTimeout_def split: option.splits)

lemma cancel_distinct:
  "distinct (map event_id (timers st)) \<Longrightarrow> distinct (map event_id (timers (cancelScheduledCheck i st)))"
  by (auto simp: cancelScheduledCheck_def clearTimeout_def distinct_map_filter split: option.splits)

lemma cancel_unscheduled: "map_of (scheduledChecks (cancelScheduledCheck i st)) i = None"
  by (auto simp: cancelScheduledCheck_def delete_conv split: option.splits)

lemma cancel_other:
  "j \<noteq> i \<Longrightarrow> map_of (scheduledChecks (cancelScheduledCheck i st)) j = map_of (scheduledChecks st) j"
  by (auto simp: cancelScheduledCheck_def split: option.splits)

lemma cancel_no_timer:
  assumes "registered st" "t \<in> set (timers (cancelScheduledCheck i st))"
  shows "event_id t \<noteq> i"
proof (cases "map_of (scheduledChecks st) i")
  case None
  with assms show ?thesis by (auto simp: cancelScheduledCheck_def registered_def)
next
  case (Some h)
  with assms(2) have "t \<in> set (timers st)" "handle t \<noteq> h"
    by (auto simp: cancelScheduledCheck_def clearTimeout_def)
  with assms(1) Some show ?thesis by (auto simp: registered_def)
qed

lemma cancel_registered: "registered st \<Longrightarrow> registered (cancelScheduledCheck i st)"
  unfolding registered_def
proof
  fix t
  assume r: "\<forall>t \<in> set (timers st). map_of (scheduledChecks st) (event_id t) = Some (handle t)"
     and t: "t \<in> set (timers (cancelScheduledCheck i st))"
  from r have "registered st" by (simp add: registered_def)
  from cancel_no_timer [OF this t] have "event_id t \<noteq> i" .
  moreover from t have "t \<in> set (timers st)" using cancel_timers_subset by blast
  ultimately show "map_of (scheduledChecks (cancelScheduledCheck i st)) (event_id t) = Some (handle t)"
    using r by (simp add: cancel_other)
qed

lemma schedule_frame [simp]:
  "db (scheduleEventCheck P now e st) = db st"
  "cache (scheduleEventCheck P now e st) = cache st"
  "isDBReady (scheduleEventCheck P now e st) = isDBReady st"
  "events (scheduleEventCheck P now e st) = events st"
  "loading (scheduleEventCheck P now e st) = loading st"
  "error (scheduleEventCheck P now e st) = error st"
  "selectedDate (scheduleEventCheck P now e st) = selectedDate st"
  by (simp_all add: scheduleEventCheck_def Let_def)

lemma schedule_not_armed: "\<not> armed P now e \<Longrightarrow> scheduleEventCheck P now e st = st"
  by (auto simp: scheduleEventCheck_def armed_def)

lemma schedule_armed:
  "armed P now e \<Longrightarrow>
   timers (scheduleEventCheck P now e st) =
     timers (cancelScheduledCheck (idE e) st) @
       [\<lparr>handle = nextHandle st, event_id = idE e,
         delay = map_option (\<lambda>t. t - getTime now) (eventDateTime P e),
         setAt = getTime now\<rparr>] \<and>
   scheduledChecks (scheduleEventCheck P now e st) =
     AList.update (idE e) (nextHandle st) (scheduledChecks (cancelScheduledCheck (idE e) st)) \<and>
   nextHandle (scheduleEventCheck P now e st) = Suc (nextHandle st)"
  by (auto simp: scheduleEventCheck_def armed_def Let_def)

lemma schedule_registered: "registered st \<Longrightarrow> registered (scheduleEventCheck P now e st)"
proof (cases "armed P now e")
  case False
  assume "registered st"
  with False show ?thesis by (simp add: schedule_not_armed)
next
  case True
  assume r: "registered st"
  note s = schedule_armed [OF True, of st]
  show ?thesis
    unfolding registered_def
  proof
    fix t
    assume "t \<in> set (timers (scheduleEventCheck P now e st))"
    with s consider "t \<in> set (timers (cancelScheduledCheck (idE e) st))"
      | "handle t = nextHandle st" "event_id t = idE e" by auto
    then show "map_of (scheduledChecks (scheduleEventCheck P now e st)) (event_id t) = Some (handle t)"
    proof cases
      case 1
      from cancel_no_timer [OF r 1] have "event_id t \<noteq> idE e" .
      moreover from cancel_registered [OF r, of "idE e"] 1
      have "map_of (scheduledChecks (cancelScheduledCheck (idE e) st)) (event_id t) = Some (handle t)"
        by (simp add: registered_def)
      ultimately show ?thesis using s by (simp add: update_conv)
    next
      case 2
      with s show ?thesis by (simp add: update_conv)
    qed
  qed
qed

lemma schedule_distinct:
  assumes "registered st" "distinct (map event_id (timers st))"
  shows "distinct (map event_id (timers (scheduleEventCheck P now e st)))"
proof (cases "armed P now e")
  case False
  with assms show ?thesis by (simp add: schedule_not_armed)
next
  case True
  note s = schedule_armed [OF True, of st]
  have "idE e \<notin> event_id ` set (timers (cancelScheduledCheck (idE e) st))"
  proof
    assume "idE e \<in> event_id ` set (timers (cancelScheduledCheck (idE e) st))"
    then obtain t where "t \<in> set (timers (cancelScheduledCheck (idE e) st))" "event_id t = idE e"
      by auto
    with cancel_no_timer [OF assms(1)] show False by blast
  qed
  with s cancel_distinct [OF assms(2), of "idE e"] show ?thesis by simp
qed

lemma cancel_fresh: "freshHandles st \<Longrightarrow> freshHandles (cancelScheduledCheck i st)"
  using cancel_timers_subset [of i st]
  by (auto simp: freshHandles_def cancelScheduledCheck_def clearTimeout_def distinct_map_filter
      split: option.splits)

lemma schedule_fresh: "freshHandles st \<Longrightarrow> freshHandles (scheduleEventCheck P now e st)"
proof (cases "armed P now e")
  case False
  assume "freshHandles st"
  with False show ?thesis by (simp add: schedule_not_armed)
next
  case True
  assume "freshHandles st"
  from cancel_fresh [OF this, of "idE e"] schedule_armed [OF True, of st]
  show ?thesis by (auto simp: freshHandles_def less_Suc_eq)
qed

lemma schedule_timer_ids:
  "event_id ` set (timers (scheduleEventCheck P now e st)) \<subseteq> insert (idE e) (event_id ` set (timers st))"
proof (cases "armed P now e")
  case False
  then show ?thesis by (auto simp: schedule_not_armed)
next
  case True
  with schedule_armed [OF True, of st] cancel_timers_subset [of "idE e" st] show ?thesis by auto
qed

lemma schedule_no_timer:
  assumes "idE e = i \<longrightarrow> completed e" "\<forall>t \<in> set (timers st). event_id t \<noteq> i"
  shows "\<forall>t \<in> set (timers (scheduleEventCheck P now e st)). event_id t \<noteq> i"
proof (cases "armed P now e")
  case False
  with assms show ?thesis by (simp add: schedule_not_armed)
next
  case True
  then have "idE e \<noteq> i" using assms(1) by (auto simp: armed_def)
  with schedule_armed [OF True, of st] cancel_timers_subset [of "idE e" st] assms(2)
  show ?thesis by auto
qed

subsection \<open>Arming a list of events\<close>

lemma fold_schedule_frame [simp]:
  "db (fold (scheduleEventCheck P now) evs st) = db st"
  "cache (fold (scheduleEventCheck P now) evs st) = cache st"
  "isDBReady (fold (scheduleEventCheck P now) evs st) = isDBReady st"
  "events (fold (scheduleEventCheck P now) evs st) = events st"
  "loading (fold (scheduleEventCheck P now) evs st) = loading st"
  "error (fold (scheduleEventCheck P now) evs st) = error st"
  "selectedDate (fold (scheduleEventCheck P now) evs st) = selectedDate st"
  by (induction evs arbitrary: st) simp_all

lemma fold_schedule_registered:
  "registered st \<Longrightarrow> registered (fold (scheduleEventCheck P now) evs st)"
  by (induction evs arbitrary: st) (simp_all add: schedule_registered)

lemma fold_schedule_distinct:
  "registered st \<Longrightarrow> distinct (map event_id (timers st)) \<Longrightarrow>
   distinct (map event_id (timers (fold (scheduleEventCheck P now) evs st)))"
  by (induction evs arbitrary: st) (simp_all add: schedule_registered schedule_distinct)

lemma fold_schedule_fresh:
  "freshHandles st \<Longrightarrow> freshHandles (fold (scheduleEventCheck P now) evs st)"
  by (induction evs arbitrary: st) (simp_all add: schedule_fresh)

lemma fold_schedule_timer_ids:
  "event_id ` set (timers (fold (scheduleEventCheck P now) evs st)) \<subseteq>
     idE ` set evs \<union> event_id ` set (timers st)"
proof (induction evs arbitrary: st)
  case Nil
  show ?case by simp
next
  case (Cons e evs)
  from Cons [of "scheduleEventCheck P now e st"] schedule_timer_ids [of P now e st]
  show ?case by auto
qed

lemma fold_schedule_no_timer:
  "\<forall>e \<in> set evs. idE e = i \<longrightarrow> completed e \<Longrightarrow> \<forall>t \<in> set (timers st). event_id t \<noteq> i \<Longrightarrow>
   \<forall>t \<in> set (timers (fold (scheduleEventCheck P now) evs st)). event_id t \<noteq> i"
proof (induction evs arbitrary: st)
  case Nil
  then show ?case by simp
next
  case (Cons e evs)
  from Cons.prems have "\<forall>t \<in> set (timers (scheduleEventCheck P now e st)). event_id t \<noteq> i"
    using schedule_no_timer [of e i st P now] by simp
  with Cons.IH [of "scheduleEventCheck P now e st"] Cons.prems(1) show ?case by simp
qed

subsection \<open>Refresh\<close>

lemma queryEvents_subset: "set (fst (queryEvents s d)) \<subseteq> set (records d)"
  by (auto simp: queryEvents_def db_getAllEvents_def db_getEventsByDate_def set_arraySort
      split: option.splits)

lemma queryEvents_db:
  "snd (queryEvents s d) =
     issue (if truthy s then IndexGetAllDate (the s) else GetAll) d"
  by (auto simp: queryEvents_def db_getAllEvents_def db_getEventsByDate_def truthy_def
      split: option.splits)

lemma sameKeys_queryEvents: "sameKeys d (snd (queryEvents s d))"
  by (simp add: queryEvents_db sameKeys_issue)

lemma sameKeys_checkAndUpdate: "sameKeys d (snd (checkAndUpdatePastEvents P now evs d))"
  by (simp add: checkAndUpdatePastEvents_eq sameKeys_markAll)

lemma idE_markCompleted [simp]: "idE (markCompleted P now e) = idE e"
  by (simp add: markCompleted_def)

lemma completed_markCompleted: "completed e \<Longrightarrow> completed (markCompleted P now e)"
  by (simp add: markCompleted_def)

lemma checkAndUpdate_stored:
  "idE ` set evs \<subseteq> ids d \<Longrightarrow>
   fst (checkAndUpdatePastEvents P now evs d) = Inr (map (markCompleted P now) evs)"
  by (auto simp: checkAndUpdatePastEvents_eq)

lemma refresh_not_ready: "\<not> isDBReady st \<Longrightarrow> refreshEvents P now st = (Inr (), st)"
  by (simp add: refreshEvents_def)

lemma refresh_hit:
  assumes "isDBReady st" "map_of (cache st) (cacheKey (selectedDate st)) = Some entry"
      and "getTime now - timestamp entry < 5000"
  shows "refreshEvents P now st =
     (case fst (checkAndUpdatePastEvents P now (entry_events entry) (db st)) of
        Inl err \<Rightarrow> (Inl err, st\<lparr>db := snd (checkAndUpdatePastEvents P now (entry_events entry) (db st))\<rparr>)
      | Inr evs \<Rightarrow>
          (Inr (), st\<lparr>db := snd (checkAndUpdatePastEvents P now (entry_events entry) (db st)),
                       events := evs, loading := False\<rparr>))"
proof -
  have "isCacheValid now (cache st) (cacheKey (selectedDate st))"
    using assms by (simp add: isCacheValid_def CACHE_DURATION_def)
  with assms(1,2) show ?thesis
    by (cases "checkAndUpdatePastEvents P now (entry_events entry) (db st)")
       (simp add: refreshEvents_def split: sum.splits)
qed

lemma refresh_miss:
  assumes "isDBReady st" "\<not> isCacheValid now (cache st) (cacheKey (selectedDate st))"
  shows "refreshEvents P now st =
     (Inr (),
      (fold (scheduleEventCheck P now)
         (map (markCompleted P now) (fst (queryEvents (selectedDate st) (db st))))
         (st\<lparr>db := snd (checkAndUpdatePastEvents P now (fst (queryEvents (selectedDate st) (db st)))
                        (snd (queryEvents (selectedDate st) (db st))))\<rparr>))
       \<lparr>cache := updateCache now (cacheKey (selectedDate st))
                   (map (markCompleted P now) (fst (queryEvents (selectedDate st) (db st))))
                   (cache st),
        events := map (markCompleted P now) (fst (queryEvents (selectedDate st) (db st))),
        loading := False\<rparr>)"
proof -
  obtain fetched d1 where q: "queryEvents (selectedDate st) (db st) = (fetched, d1)"
    by (cases "queryEvents (selectedDate st) (db st)")
  obtain r d2 where c: "checkAndUpdatePastEvents P now fetched d1 = (r, d2)"
    by (cases "checkAndUpdatePastEvents P now fetched d1")
  have "idE ` set fetched \<subseteq> ids d1"
    using queryEvents_subset [of "selectedDate st" "db st"]
      sameKeys_ids [OF sameKeys_queryEvents [of "db st" "selectedDate st"]] q
    by (auto simp: ids_def)
  from checkAndUpdate_stored [OF this, of P now] c
  have r: "r = Inr (map (markCompleted P now) fetched)" by simp
  show ?thesis using assms q c r by (simp add: refreshEvents_def Let_def)
qed

lemma registered_frame [simp]:
  "registered (st\<lparr>db := d\<rparr>) = registered st"
  "registered (st\<lparr>cache := c\<rparr>) = registered st"
  "registered (st\<lparr>events := evs\<rparr>) = registered st"
  "registered (st\<lparr>loading := l\<rparr>) = registered st"
  "registered (st\<lparr>error := er\<rparr>) = registered st"
  "registered (st\<lparr>selectedDate := sd\<rparr>) = registered st"
  "registered (st\<lparr>isDBReady := b\<rparr>) = registered st"
  by (simp_all add: registered_def)

lemma freshHandles_frame [simp]:
  "freshHandles (st\<lparr>db := d\<rparr>) = freshHandles st"
  "freshHandles (st\<lparr>cache := c\<rparr>) = freshHandles st"
  "freshHandles (st\<lparr>events := evs\<rparr>) = freshHandles st"
  "freshHandles (st\<lparr>loading := l\<rparr>) = freshHandles st"
  "freshHandles (st\<lparr>error := er\<rparr>) = freshHandles st"
  "freshHandles (st\<lparr>selectedDate := sd\<rparr>) = freshHandles st"
  "freshHandles (st\<lparr>isDBReady := b\<rparr>) = freshHandles st"
  "freshHandles (st\<lparr>scheduledChecks := sc\<rparr>) = freshHandles st"
  by (simp_all add: freshHandles_def)

lemma consistent_frame [simp]:
  "consistent (st\<lparr>events := evs\<rparr>) = consistent st"
  "consistent (st\<lparr>loading := l\<rparr>) = consistent st"
  "consistent (st\<lparr>error := er\<rparr>) = consistent st"
  "consistent (st\<lparr>selectedDate := sd\<rparr>) = consistent st"
  "consistent (st\<lparr>isDBReady := b\<rparr>) = consistent st"
  by (simp_all add: consistent_def)

lemma consistent_db: "consistent st \<Longrightarrow> sameKeys (db st) d \<Longrightarrow> consistent (st\<lparr>db := d\<rparr>)"
  using sameKeys_ids [of "db st" d] sameKeys_wf [of "db st" d]
  by (simp add: consistent_def)

lemma fold_delete: "fold AList.delete ks c = filter (\<lambda>p. fst p \<notin> set ks) c"
proof (induction ks arbitrary: c)
  case Nil
  show ?case by simp
next
  case (Cons k ks)
  have "AList.delete k c = filter (\<lambda>p. k \<noteq> fst p) c"
    by (simp add: AList.delete_eq case_prod_unfold)
  with Cons [of "AList.delete k c"] show ?case by (auto intro: filter_cong)
qed

lemma invalidateCache_empty: "invalidateCache c = []"
  by (simp add: invalidateCache_def fold_delete)

lemma consistent_invalidate: "consistent st \<Longrightarrow> consistent (st\<lparr>cache := invalidateCache c\<rparr>)"
  by (simp add: consistent_def invalidateCache_empty)

lemma consistent_arm:
  assumes "consistent st" "idE ` set evs \<subseteq> ids (db st)"
  shows "consistent
     ((fold (scheduleEventCheck P now) evs st)
        \<lparr>cache := updateCache now k evs (cache st), events := evs, loading := False\<rparr>)"
proof -
  let ?st1 = "fold (scheduleEventCheck P now) evs st"
  from assms(1) have r: "registered st" and d: "distinct (map event_id (timers st))"
    and f: "freshHandles st"
    by (simp_all add: consistent_def)
  have "registered ?st1" by (rule fold_schedule_registered [OF r])
  moreover have "freshHandles ?st1" by (rule fold_schedule_fresh [OF f])
  moreover have "distinct (map event_id (timers ?st1))" by (rule fold_schedule_distinct [OF r d])
  moreover have "\<forall>t \<in> set (timers ?st1). event_id t \<in> ids (db st)"
  proof -
    have "event_id ` set (timers st) \<subseteq> ids (db st)"
      using assms(1) by (auto simp: consistent_def)
    with fold_schedule_timer_ids [of P now evs st] assms(2)
    have "event_id ` set (timers ?st1) \<subseteq> ids (db st)" by blast
    then show ?thesis by auto
  qed
  moreover have "\<forall>k' entry. map_of (updateCache now k evs (cache st)) k' = Some entry \<longrightarrow>
      idE ` set (entry_events entry) \<subseteq> ids (db st)"
    using assms by (auto simp: updateCache_def consistent_def update_conv')
  ultimately show ?thesis using assms(1) by (simp add: consistent_def)
qed

lemma refresh_consistent:
  assumes "consistent st"
  shows "consistent (snd (refreshEvents P now st))"
proof (cases "isDBReady st")
  case False
  with assms show ?thesis by (simp add: refresh_not_ready)
next
  case True
  show ?thesis
  proof (cases "isCacheValid now (cache st) (cacheKey (selectedDate st))")
    case valid: True
    then obtain entry where e: "map_of (cache st) (cacheKey (selectedDate st)) = Some entry"
        "getTime now - timestamp entry < 5000"
      by (auto simp: isCacheValid_def CACHE_DURATION_def split: option.splits)
    have "consistent (st\<lparr>db := snd (checkAndUpdatePastEvents P now (entry_events entry) (db st))\<rparr>)"
      by (rule consistent_db [OF assms sameKeys_checkAndUpdate])
    then show ?thesis
      by (simp add: refresh_hit [OF True e] split: sum.splits)
  next
    case False
    let ?f = "fst (queryEvents (selectedDate st) (db st))"
    let ?d1 = "snd (queryEvents (selectedDate st) (db st))"
    let ?d2 = "snd (checkAndUpdatePastEvents P now ?f ?d1)"
    have k: "sameKeys (db st) ?d2"
      using sameKeys_trans [OF sameKeys_queryEvents sameKeys_checkAndUpdate] .
    have c: "consistent (st\<lparr>db := ?d2\<rparr>)" by (rule consistent_db [OF assms k])
    have "idE ` set (map (markCompleted P now) ?f) \<subseteq> ids (db (st\<lparr>db := ?d2\<rparr>))"
      using queryEvents_subset [of "selectedDate st" "db st"] sameKeys_ids [OF k]
      by (auto simp: ids_def)
    from consistent_arm [OF c this, where P = P and now = now and k = "cacheKey (selectedDate st)"]
    show ?thesis by (simp add: refresh_miss [OF True False])
  qed
qed

lemma refresh_ok:
  assumes "consistent st"
  shows "fst (refreshEvents P now st) = Inr ()"
proof (cases "isDBReady st")
  case False
  then show ?thesis by (simp add: refresh_not_ready)
next
  case True
  show ?thesis
  proof (cases "isCacheValid now (cache st) (cacheKey (selectedDate st))")
    case valid: True
    then obtain entry where e: "map_of (cache st) (cacheKey (selectedDate st)) = Some entry"
        "getTime now - timestamp entry < 5000"
      by (auto simp: isCacheValid_def CACHE_DURATION_def split: option.splits)
    with assms have "idE ` set (entry_events entry) \<subseteq> ids (db st)"
      by (simp add: consistent_def)
    from checkAndUpdate_stored [OF this] show ?thesis
      by (simp add: refresh_hit [OF True e])
  next
    case False
    show ?thesis by (simp add: refresh_miss [OF True False])
  qed
qed

lemma checkAndUpdate_keeps:
  "\<forall>r \<in> set (records d). idE r = i \<longrightarrow> completed r \<Longrightarrow>
   \<forall>r \<in> set (records (snd (checkAndUpdatePastEvents P now evs d))). idE r = i \<longrightarrow> completed r"
  by (simp add: checkAndUpdatePastEvents_eq markAll_keeps)

lemma refresh_timers_hit:
  "isDBReady st \<Longrightarrow> isCacheValid now (cache st) (cacheKey (selectedDate st)) \<Longrightarrow>
   timers (snd (refreshEvents P now st)) = timers st \<and>
   scheduledChecks (snd (refreshEvents P now st)) = scheduledChecks st"
  by (auto simp: refreshEvents_def split: option.splits sum.splits prod.splits)

lemma refresh_no_timer:
  assumes "\<forall>r \<in> set (records (db st)). idE r = i \<longrightarrow> completed r"
      and "\<forall>t \<in> set (timers st). event_id t \<noteq> i"
  shows "\<forall>t \<in> set (timers (snd (refreshEvents P now st))). event_id t \<noteq> i"
proof (cases "isDBReady st")
  case False
  with assms show ?thesis by (simp add: refresh_not_ready)
next
  case True
  show ?thesis
  proof (cases "isCacheValid now (cache st) (cacheKey (selectedDate st))")
    case valid: True
    with refresh_timers_hit [OF True valid] assms(2) show ?thesis by simp
  next
    case False
    let ?f = "fst (queryEvents (selectedDate st) (db st))"
    have "\<forall>e \<in> set (map (markCompleted P now) ?f). idE e = i \<longrightarrow> completed e"
      using queryEvents_subset [of "selectedDate st" "db st"] assms(1)
      by (auto simp: completed_markCompleted)
    from fold_schedule_no_timer [OF this, where P = P and now = now and
        st = "st\<lparr>db := snd (checkAndUpdatePastEvents P now ?f (snd (queryEvents (selectedDate st) (db st))))\<rparr>"]
      assms(2)
    show ?thesis by (simp add: refresh_miss [OF True False])
  qed
qed

subsection \<open>Every operation keeps the store consistent\<close>

lemma consistent_db_mono:
  "consistent st \<Longrightarrow> wf_db d \<Longrightarrow> ids (db st) \<subseteq> ids d \<Longrightarrow> consistent (st\<lparr>db := d\<rparr>)"
  by (simp add: consistent_def) blast

lemma addEvent_db:
  "wf_db d \<Longrightarrow> wf_db (snd (db_addEvent now ev d)) \<and> ids d \<subseteq> ids (snd (db_addEvent now ev d))"
  by (auto simp: db_addEvent_def Let_def wf_db_def ids_def issue_def split: sum.splits)

lemma deleteEvent_db:
  "wf_db d \<Longrightarrow> wf_db (snd (db_deleteEvent i d)) \<and> ids (snd (db_deleteEvent i d)) = ids d - {i}"
  by (auto simp: db_deleteEvent_def wf_db_def ids_def issue_def distinct_map_filter)

lemma cancel_consistent: "consistent st \<Longrightarrow> consistent (cancelScheduledCheck i st)"
  using cancel_registered [of st i] cancel_distinct [of st i] cancel_timers_subset [of i st]
    cancel_fresh [of st i]
  by (auto simp: consistent_def)

lemma catchError_consistent [simp]: "consistent (snd (catchError r)) = consistent (snd r)"
  by (cases r) (auto simp: catchError_def split: sum.splits)

lemma consistent_initial: "wf_db d \<Longrightarrow> consistent (initialStore d h)"
  by (simp add: consistent_def initialStore_def registered_def freshHandles_def)

lemma initializeStore_consistent:
  "consistent st \<Longrightarrow> consistent (snd (initializeStore P now openError st))"
  by (cases openError) (simp_all add: initializeStore_def refresh_consistent)

lemma setSelectedDate_consistent:
  "consistent st \<Longrightarrow> consistent (snd (setSelectedDate P now dt st))"
  by (simp add: setSelectedDate_def refresh_consistent)

lemma fetchEvents_consistent: "consistent st \<Longrightarrow> consistent (snd (fetchEvents P now st))"
  by (simp add: fetchEvents_def refresh_consistent)

lemma fetchEventsByDate_consistent:
  "consistent st \<Longrightarrow> consistent (snd (fetchEventsByDate P now dt st))"
  by (simp add: fetchEventsByDate_def refresh_consistent)

lemma addEvent_consistent:
  assumes "consistent st"
  shows "consistent (snd (addEvent P now ev st))"
proof (cases "isDBReady st")
  case False
  with assms show ?thesis by (simp add: addEvent_def)
next
  case True
  let ?st1 = "st\<lparr>loading := True, error := None\<rparr>"
  obtain r d1 where a: "db_addEvent now ev (db st) = (r, d1)" by (cases "db_addEvent now ev (db st)")
  from assms have "wf_db (db st)" by (simp add: consistent_def)
  from addEvent_db [OF this, of now ev] a have "wf_db d1" "ids (db st) \<subseteq> ids d1" by simp_all
  with assms have c: "consistent (?st1\<lparr>db := d1\<rparr>)"
    using consistent_db_mono [of ?st1 d1] by simp
  from consistent_invalidate [OF c, of "cache ?st1"]
  have "consistent (?st1\<lparr>db := d1, cache := invalidateCache (cache ?st1)\<rparr>)" by simp
  from refresh_consistent [OF this, of P now] c True a show ?thesis
    by (cases r) (simp_all add: addEvent_def)
qed

lemma updateEvent_consistent:
  assumes "consistent st"
  shows "consistent (snd (updateEvent P now i u st))"
proof (cases "isDBReady st")
  case False
  with assms show ?thesis by (simp add: updateEvent_def)
next
  case True
  let ?st1 = "st\<lparr>loading := True, error := None\<rparr>"
  obtain r d1 where a: "db_updateEvent now i u (db st) = (r, d1)"
    by (cases "db_updateEvent now i u (db st)")
  have "sameKeys (db ?st1) d1" using sameKeys_updateEvent [of "db st" now i u] a by simp
  with assms have c: "consistent (?st1\<lparr>db := d1\<rparr>)"
    using consistent_db [of ?st1 d1] by simp
  let ?st2 = "cancelScheduledCheck i (?st1\<lparr>db := d1\<rparr>)"
  have "consistent ?st2" by (rule cancel_consistent [OF c])
  from consistent_invalidate [OF this, of "cache ?st2"]
  have "consistent (?st2\<lparr>cache := invalidateCache (cache ?st2)\<rparr>)" .
  from refresh_consistent [OF this, of P now] c True a show ?thesis
    by (cases r) (simp_all add: updateEvent_def Let_def)
qed

lemma consistent_delete:
  assumes "consistent st" "\<forall>t \<in> set (timers st). event_id t \<noteq> i"
  shows "consistent (st\<lparr>db := snd (db_deleteEvent i (db st)), cache := invalidateCache c\<rparr>)"
proof -
  from assms(1) have "wf_db (db st)" by (simp add: consistent_def)
  from deleteEvent_db [OF this, of i] assms show ?thesis
    by (simp add: consistent_def invalidateCache_empty registered_def freshHandles_def)
qed

lemma deleteEvent_consistent:
  assumes "consistent st"
  shows "consistent (snd (deleteEvent P now i st))"
proof (cases "isDBReady st")
  case False
  with assms show ?thesis by (simp add: deleteEvent_def)
next
  case True
  let ?st1 = "cancelScheduledCheck i (st\<lparr>loading := True, error := None\<rparr>)"
  from assms have c: "consistent ?st1" by (simp add: cancel_consistent)
  have "registered (st\<lparr>loading := True, error := None\<rparr>)"
    using assms by (simp add: consistent_def)
  then have "\<forall>t \<in> set (timers ?st1). event_id t \<noteq> i"
    using cancel_no_timer by blast
  from consistent_delete [OF c this, of "cache ?st1"]
  have "consistent (?st1\<lparr>db := snd (db_deleteEvent i (db ?st1)), cache := invalidateCache (cache ?st1)\<rparr>)" .
  from refresh_consistent [OF this, of P now] True show ?thesis
    by (simp add: deleteEvent_def Let_def db_deleteEvent_def)
qed

lemma markEventAsCompleted_tail:
  assumes "consistent st1"
  shows "consistent
     (snd (case db_markEventAsCompleted now i c (db st1) of
             (Inl err, d1) \<Rightarrow> (Inl err, st1\<lparr>db := d1\<rparr>)
           | (Inr _, d1) \<Rightarrow>
               refreshEvents P now (st1\<lparr>db := d1, cache := invalidateCache (cache st1)\<rparr>)))"
proof -
  obtain r d1 where a: "db_markEventAsCompleted now i c (db st1) = (r, d1)"
    by (cases "db_markEventAsCompleted now i c (db st1)")
  have "sameKeys (db st1) d1" using sameKeys_markEventAsCompleted [of "db st1" now i c] a by simp
  from consistent_db [OF assms this] have c2: "consistent (st1\<lparr>db := d1\<rparr>)" .
  from consistent_invalidate [OF c2, of "cache st1"]
  have "consistent (st1\<lparr>db := d1, cache := invalidateCache (cache st1)\<rparr>)" by simp
  from refresh_consistent [OF this, of P now] c2 a show ?thesis
    by (cases r) simp_all
qed

lemma markEventAsCompleted_consistent:
  assumes "consistent st"
  shows "consistent (snd (markEventAsCompleted P now i c st))"
proof (cases "isDBReady st")
  case False
  with assms show ?thesis by (simp add: markEventAsCompleted_def)
next
  case True
  let ?st0 = "st\<lparr>loading := True, error := None\<rparr>"
  from assms have c0: "consistent ?st0" and c1: "consistent (cancelScheduledCheck i ?st0)"
    by (simp_all add: cancel_consistent)
  from markEventAsCompleted_tail [OF c0, where now = now and i = i and c = False and P = P]
       markEventAsCompleted_tail [OF c1, where now = now and i = i and c = True and P = P] True
  show ?thesis
    by (cases c) (simp_all add: markEventAsCompleted_def Let_def)
qed

lemma fold_clearTimeout: "fold clearTimeout hs ts = filter (\<lambda>t. handle t \<notin> set hs) ts"
  by (induction hs arbitrary: ts) (auto simp: clearTimeout_def intro: filter_cong)

lemma cleanup_timers: "registered st \<Longrightarrow> timers (cleanup st) = []"
proof -
  assume r: "registered st"
  have "handle t \<in> set (map snd (scheduledChecks st))" if "t \<in> set (timers st)" for t
  proof -
    from r that have "map_of (scheduledChecks st) (event_id t) = Some (handle t)"
      by (simp add: registered_def)
    from map_of_SomeD [OF this] show ?thesis by force
  qed
  then show ?thesis by (simp add: cleanup_def fold_clearTimeout)
qed

lemma cleanup_consistent: "consistent st \<Longrightarrow> consistent (cleanup st)"
proof -
  assume c: "consistent st"
  then have "timers (cleanup st) = []" by (simp add: cleanup_timers consistent_def)
  moreover have "db (cleanup st) = db st" "cache (cleanup st) = cache st"
    by (simp_all add: cleanup_def)
  ultimately show ?thesis using c by (simp add: consistent_def registered_def freshHandles_def)
qed

lemma find_handle: "find (\<lambda>t. handle t = h) ts = Some t \<Longrightarrow> t \<in> set ts \<and> handle t = h"
  by (induction ts) (auto split: if_splits)

text \<open>The state in which the callback of a fired timer starts.\<close>

lemma fired_consistent:
  assumes "consistent st" "t \<in> set (timers st)"
  shows "consistent (st\<lparr>timers := clearTimeout (handle t) (timers st)\<rparr>)"
    and "\<forall>t' \<in> set (clearTimeout (handle t) (timers st)). event_id t' \<noteq> event_id t"
proof -
  from assms(1) have d: "distinct (map event_id (timers st))" by (simp add: consistent_def)
  show "consistent (st\<lparr>timers := clearTimeout (handle t) (timers st)\<rparr>)"
    using assms(1)
    by (auto simp: consistent_def registered_def freshHandles_def clearTimeout_def
        distinct_map_filter)
  show "\<forall>t' \<in> set (clearTimeout (handle t) (timers st)). event_id t' \<noteq> event_id t"
  proof
    fix t'
    assume "t' \<in> set (clearTimeout (handle t) (timers st))"
    then have m: "t' \<in> set (timers st)" and h: "handle t' \<noteq> handle t"
      by (auto simp: clearTimeout_def)
    show "event_id t' \<noteq> event_id t"
    proof
      assume "event_id t' = event_id t"
      with d m assms(2) have "t' = t" by (meson distinct_map inj_onD)
      with h show False by simp
    qed
  qed
qed

lemma fireTimer_eq:
  assumes "consistent st" "find (\<lambda>t. handle t = h) (timers st) = Some t"
  shows "fireTimer P now h st =
     (snd (refreshEvents P now
        (st\<lparr>timers := clearTimeout h (timers st),
             db := snd (db_markEventAsCompleted now (event_id t) True (db st))\<rparr>)))
     \<lparr>scheduledChecks := AList.delete (event_id t)
        (scheduledChecks (snd (refreshEvents P now
           (st\<lparr>timers := clearTimeout h (timers st),
                db := snd (db_markEventAsCompleted now (event_id t) True (db st))\<rparr>))))\<rparr>"
proof -
  from find_handle [OF assms(2)] have t: "t \<in> set (timers st)" "handle t = h" by simp_all
  let ?st1 = "st\<lparr>timers := clearTimeout h (timers st)\<rparr>"
  obtain r d1 where a: "db_markEventAsCompleted now (event_id t) True (db st) = (r, d1)"
    by (cases "db_markEventAsCompleted now (event_id t) True (db st)")
  from assms(1) t have "event_id t \<in> ids (db st)" by (simp add: consistent_def)
  with markEventAsCompleted_result [of now "event_id t" True "db st"] a have r: "r = Inr ()" by simp
  have c1: "consistent ?st1" using fired_consistent(1) [OF assms(1) t(1)] t(2) by simp
  have "sameKeys (db ?st1) d1"
    using sameKeys_markEventAsCompleted [of "db st" now "event_id t" True] a by simp
  from consistent_db [OF c1 this] have c2: "consistent (?st1\<lparr>db := d1\<rparr>)" .
  obtain r2 st2 where b: "refreshEvents P now (?st1\<lparr>db := d1\<rparr>) = (r2, st2)"
    by (cases "refreshEvents P now (?st1\<lparr>db := d1\<rparr>)")
  from refresh_ok [OF c2, of P now] b have r2: "r2 = Inr ()" by simp
  show ?thesis using assms(2) a r b r2 by (simp add: fireTimer_def)
qed

lemma fireTimer_consistent:
  assumes "consistent st"
  shows "consistent (fireTimer P now h st)"
proof (cases "find (\<lambda>t. handle t = h) (timers st)")
  case None
  with assms show ?thesis by (simp add: fireTimer_def)
next
  case (Some t)
  from find_handle [OF Some] have t: "t \<in> set (timers st)" "handle t = h" by simp_all
  let ?i = "event_id t"
  let ?d1 = "snd (db_markEventAsCompleted now ?i True (db st))"
  let ?st1 = "st\<lparr>timers := clearTimeout h (timers st), db := ?d1\<rparr>"
  let ?st2 = "snd (refreshEvents P now ?st1)"
  have c0: "consistent (st\<lparr>timers := clearTimeout h (timers st)\<rparr>)"
    using fired_consistent(1) [OF assms t(1)] t(2) by simp
  have n0: "\<forall>t' \<in> set (clearTimeout h (timers st)). event_id t' \<noteq> ?i"
    using fired_consistent(2) [OF assms t(1)] t(2) by simp
  have "sameKeys (db (st\<lparr>timers := clearTimeout h (timers st)\<rparr>)) ?d1"
    using sameKeys_markEventAsCompleted [of "db st" now ?i True] by simp
  from consistent_db [OF c0 this] have c1: "consistent ?st1" by simp
  have c2: "consistent ?st2" by (rule refresh_consistent [OF c1])
  from assms have "wf_db (db st)" by (simp add: consistent_def)
  then have "\<forall>r \<in> set (records (db ?st1)). idE r = ?i \<longrightarrow> completed r"
    using markEventAsCompleted_completed [of "db st" _ now ?i] by simp
  from refresh_no_timer [OF this, of P now] n0
  have n2: "\<forall>t' \<in> set (timers ?st2). event_id t' \<noteq> ?i" by simp
  have "consistent (?st2\<lparr>scheduledChecks := AList.delete ?i (scheduledChecks ?st2)\<rparr>)"
    using c2 n2 by (simp add: consistent_def registered_def)
  then show ?thesis by (simp add: fireTimer_eq [OF assms Some])
qed

lemma perform_consistent: "consistent st \<Longrightarrow> consistent (perform P now a st)"
proof (cases a)
  case (InitializeStore x)
  assume "consistent st"
  with InitializeStore show ?thesis by (simp add: initializeStore_consistent)
next
  case ClearError
  assume "consistent st"
  with ClearError show ?thesis by (simp add: clearError_def)
next
  case ClearCache
  assume "consistent st"
  with ClearCache show ?thesis by (simp add: clearCache_def consistent_invalidate)
qed (simp_all add: fetchEvents_consistent fetchEventsByDate_consistent addEvent_consistent
      updateEvent_consistent deleteEvent_consistent setSelectedDate_consistent
      markEventAsCompleted_consistent cleanup_consistent fireTimer_consistent)

lemma run_consistent: "consistent st \<Longrightarrow> consistent (run P acts st)"
  by (induction acts arbitrary: st) (auto simp: perform_consistent)

section \<open>The cache\<close>

subsection \<open>Queries issued on the Record Store\<close>

lemma queries_issue: "queries (issue r d) = queries d @ (if isQuery r then [r] else [])"
  by (simp add: queries_def issue_def)

lemma queries_records [simp]: "queries (d\<lparr>records := rs\<rparr>) = queries d"
  by (simp add: queries_def)

lemma queries_nextId [simp]: "queries (d\<lparr>nextId := n\<rparr>) = queries d"
  by (simp add: queries_def)

lemma queries_updateEvent: "queries (snd (db_updateEvent now i u d)) = queries d"
  by (auto simp: db_updateEvent_def Let_def queries_issue split: sum.splits option.splits)

lemma queries_markEventAsCompleted: "queries (snd (db_markEventAsCompleted now i c d)) = queries d"
  by (simp add: db_markEventAsCompleted_def queries_updateEvent)

lemma queries_addEvent: "queries (snd (db_addEvent now ev d)) = queries d"
  by (auto simp: db_addEvent_def Let_def queries_issue split: sum.splits)

lemma queries_deleteEvent: "queries (snd (db_deleteEvent i d)) = queries d"
  by (simp add: db_deleteEvent_def queries_issue)

lemma queries_markAll: "queries (snd (markAll now js d)) = queries d"
proof (induction js arbitrary: d)
  case Nil
  show ?case by simp
next
  case (Cons i js)
  obtain r d1 where a: "db_markEventAsCompleted now i True d = (r, d1)"
    by (cases "db_markEventAsCompleted now i True d")
  obtain rs d2 where b: "markAll now js d1 = (rs, d2)" by (cases "markAll now js d1")
  from queries_markEventAsCompleted [of now i True d] a have "queries d1 = queries d" by simp
  with Cons [of d1] a b show ?case by simp
qed

lemma queries_checkAndUpdate: "queries (snd (checkAndUpdatePastEvents P now evs d)) = queries d"
  by (simp add: checkAndUpdatePastEvents_eq queries_markAll)

lemma queries_queryEvents:
  "\<exists>q. isQuery q \<and> queries (snd (queryEvents s d)) = queries d @ [q]"
  by (simp add: queryEvents_db queries_issue)

lemma queryEvents_records: "records d' = records d \<Longrightarrow> fst (queryEvents s d') = fst (queryEvents s d)"
  by (simp add: queryEvents_def db_getAllEvents_def db_getEventsByDate_def split: option.splits)

lemma isCacheValid_iff:
  "isCacheValid now c k \<longleftrightarrow>
     (\<exists>entry. map_of c k = Some entry \<and> getTime now - timestamp entry < 5000)"
  by (simp add: isCacheValid_def CACHE_DURATION_def split: option.splits)

subsection \<open>What a refresh publishes\<close>

lemma refresh_hit_consistent:
  assumes "consistent st" "isDBReady st" "map_of (cache st) (cacheKey (selectedDate st)) = Some entry"
      and "getTime now - timestamp entry < 5000"
  shows "refreshEvents P now st =
     (Inr (), st\<lparr>db := snd (checkAndUpdatePastEvents P now (entry_events entry) (db st)),
                  events := map (markCompleted P now) (entry_events entry), loading := False\<rparr>)"
proof -
  from assms(1,3) have "idE ` set (entry_events entry) \<subseteq> ids (db st)"
    by (simp add: consistent_def)
  from checkAndUpdate_stored [OF this] show ?thesis
    by (simp add: refresh_hit [OF assms(2-4)])
qed

lemma refresh_miss_facts:
  assumes "isDBReady st" "\<not> isCacheValid now (cache st) (cacheKey (selectedDate st))"
  shows "fst (refreshEvents P now st) = Inr ()"
    and "events (snd (refreshEvents P now st)) =
           map (markCompleted P now) (fst (queryEvents (selectedDate st) (db st)))"
    and "cache (snd (refreshEvents P now st)) =
           AList.update (cacheKey (selectedDate st))
              \<lparr>timestamp = getTime now, entry_events = events (snd (refreshEvents P now st))\<rparr>
              (cache st)"
    and "\<exists>q. isQuery q \<and> queries (db (snd (refreshEvents P now st))) = queries (db st) @ [q]"
    and "error (snd (refreshEvents P now st)) = error st"
    and "loading (snd (refreshEvents P now st)) = False"
    and "selectedDate (snd (refreshEvents P now st)) = selectedDate st"
    and "isDBReady (snd (refreshEvents P now st))"
    and "sameKeys (db st) (db (snd (refreshEvents P now st)))"
  using assms queries_queryEvents [of "selectedDate st" "db st"]
    sameKeys_trans [OF sameKeys_queryEvents sameKeys_checkAndUpdate]
  by (simp_all add: refresh_miss [OF assms] updateCache_def queries_checkAndUpdate)

section \<open>The sample store\<close>

lemma readyStore_reached:
  "readyStore = run sampleParseISO [(at0800, InitializeStore None)] (initialStore sampleDb 0)"
  by (simp add: readyStore_def)

lemma readyStore_facts:
  "isDBReady readyStore"
  "timers readyStore = [standupTimer]"
  "scheduledChecks readyStore = [(1, 0)]"
  "map_of (cache readyStore) (cacheKey (selectedDate readyStore)) =
     Some \<lparr>timestamp = getTime at0800, entry_events = [review\<lparr>completed := True\<rparr>, standup]\<rparr>"
  "queries (db readyStore) = [GetAll]"
  by code_simp+

lemma standupTimer_fields: "handle standupTimer = 0" "event_id standupTimer = 1"
  by (simp_all add: standupTimer_def)

lemma sample_armed: "armed sampleParseISO at0800 standup" "idE standup = 1"
  "eventDateTime sampleParseISO standup = Some 1736499600000"
  "\<not> completed standup" "getTime at0800 \<le> 1736499600000" "getTime at0900 \<le> 1736499600000"
  by code_simp+

section \<open>What the reconcile pass does\<close>

text \<open>
  C1. For every list of events and every current time, \<^verbatim>\<open>checkAndUpdatePastEvents\<close> calls
  \<^verbatim>\<open>db.markEventAsCompleted(id, true)\<close> for exactly the events that are not completed and
  whose date and time are strictly before now, in the order of the list. It returns the
  list in which exactly those events are marked completed and every other event is
  unchanged; it returns whenever the key of each such event is in the Record Store (the
  update of a key that is not stored rejects with "not found", and the pass with it).
  With unique keys, the stored records of those events are completed afterwards.
  The lists the store passes to it have all their keys in the Record Store: the result of
  a query, and the cached snapshot of any state the store can reach.
\<close>

theorem C1_reconcile_pass:
  "snd (checkAndUpdatePastEvents P now evs d) =
     snd (markAll now (map idE (filter (isPastDue P now) evs)) d) \<and>
   fst (checkAndUpdatePastEvents P now evs d) =
     (if \<forall>e \<in> set evs. isPastDue P now e \<longrightarrow> idE e \<in> ids d
      then Inr (map (\<lambda>e. if isPastDue P now e then e\<lparr>completed := True\<rparr> else e) evs)
      else Inl notFound) \<and>
   (wf_db d \<longrightarrow>
      (\<forall>e \<in> set evs. isPastDue P now e \<longrightarrow>
         (\<forall>r \<in> set (records (snd (checkAndUpdatePastEvents P now evs d))).
            idE r = idE e \<longrightarrow> completed r))) \<and>
   (\<forall>e \<in> set (fst (queryEvents s d)). idE e \<in> ids (snd (queryEvents s d))) \<and>
   (wf_db d0 \<and> st = run P acts (initialStore d0 h) \<and> map_of (cache st) k = Some entry \<longrightarrow>
      (\<forall>e \<in> set (entry_events entry). idE e \<in> ids (db st)))"
proof -
  have 1: "snd (checkAndUpdatePastEvents P now evs d) =
     snd (markAll now (map idE (filter (isPastDue P now) evs)) d)"
    by (simp add: checkAndUpdatePastEvents_eq)
  have "map (markCompleted P now) evs =
      map (\<lambda>e. if isPastDue P now e then e\<lparr>completed := True\<rparr> else e) evs"
    by (simp add: markCompleted_def)
  then have 2: "fst (checkAndUpdatePastEvents P now evs d) =
     (if \<forall>e \<in> set evs. isPastDue P now e \<longrightarrow> idE e \<in> ids d
      then Inr (map (\<lambda>e. if isPastDue P now e then e\<lparr>completed := True\<rparr> else e) evs)
      else Inl notFound)"
    by (simp add: checkAndUpdatePastEvents_eq)
  have 3: "wf_db d \<longrightarrow>
      (\<forall>e \<in> set evs. isPastDue P now e \<longrightarrow>
         (\<forall>r \<in> set (records (snd (checkAndUpdatePastEvents P now evs d))).
            idE r = idE e \<longrightarrow> completed r))"
  proof (intro impI ballI)
    fix e r
    assume "wf_db d" "e \<in> set evs" "isPastDue P now e"
      and "r \<in> set (records (snd (checkAndUpdatePastEvents P now evs d)))" "idE r = idE e"
    with markAll_completed [of d "idE e" "map idE (filter (isPastDue P now) evs)" now] 1
    show "completed r" by simp
  qed
  have 4: "\<forall>e \<in> set (fst (queryEvents s d)). idE e \<in> ids (snd (queryEvents s d))"
    using queryEvents_subset [of s d] sameKeys_ids [OF sameKeys_queryEvents [of d s]]
    by (auto simp: ids_def)
  have 5: "wf_db d0 \<and> st = run P acts (initialStore d0 h) \<and> map_of (cache st) k = Some entry \<longrightarrow>
      (\<forall>e \<in> set (entry_events entry). idE e \<in> ids (db st))"
  proof (intro impI)
    assume h: "wf_db d0 \<and> st = run P acts (initialStore d0 h) \<and> map_of (cache st) k = Some entry"
    then have w: "wf_db d0" and r: "st = run P acts (initialStore d0 h)"
      and c: "map_of (cache st) k = Some entry" by blast+
    have "consistent st"
      unfolding r by (rule run_consistent [OF consistent_initial [OF w]])
    with c have "idE ` set (entry_events entry) \<subseteq> ids (db st)"
      by (simp add: consistent_def)
    then show "\<forall>e \<in> set (entry_events entry). idE e \<in> ids (db st)" by blast
  qed
  from 1 2 3 4 5 show ?thesis by blast
qed

theorem C1_reconcile_pass_witness:
  "wf_db sampleDb \<and>
   isPastDue sampleParseISO at0800 review \<and> idE review \<in> ids sampleDb \<and>
   \<not> isPastDue sampleParseISO at0800 standup \<and>
   fst (checkAndUpdatePastEvents sampleParseISO at0800 [standup, review] sampleDb) =
     Inr [standup, review\<lparr>completed := True\<rparr>] \<and>
   snd (checkAndUpdatePastEvents sampleParseISO at0800 [standup, review] sampleDb) =
     snd (markAll at0800 [2] sampleDb) \<and>
   map completed (records (snd (checkAndUpdatePastEvents sampleParseISO at0800 [standup, review] sampleDb))) =
     [False, True] \<and>
   map_of (cache readyStore) (cacheKey (selectedDate readyStore)) =
     Some \<lparr>timestamp = getTime at0800, entry_events = [review\<lparr>completed := True\<rparr>, standup]\<rparr> \<and>
   idE standup \<in> ids (db readyStore) \<and>
   fst (checkAndUpdatePastEvents sampleParseISO at0901
          [review\<lparr>completed := True\<rparr>, standup] (db readyStore)) =
     Inr [review\<lparr>completed := True\<rparr>, standup\<lparr>completed := True\<rparr>]"
proof -
  note t = C1_reconcile_pass [of sampleParseISO at0800 "[standup, review]" sampleDb]
  note u = C1_reconcile_pass [of sampleParseISO at0901 "[review\<lparr>completed := True\<rparr>, standup]"
      "db readyStore" None sampleDb readyStore "[(at0800, InitializeStore None)]" 0
      "cacheKey (selectedDate readyStore)"
      "\<lparr>timestamp = getTime at0800, entry_events = [review\<lparr>completed := True\<rparr>, standup]\<rparr>"]
  have i: "idE review \<in> ids sampleDb" "idE review = 2"
    by (simp_all add: ids_def sampleDb_def review_def)
  have c: "map completed (records (snd (checkAndUpdatePastEvents sampleParseISO at0800 [standup, review] sampleDb))) =
     [False, True]"
    by code_simp
  have p: "isPastDue sampleParseISO at0901 standup"
    "\<not> isPastDue sampleParseISO at0901 (review\<lparr>completed := True\<rparr>)"
    by (simp_all add: isPastDue_def eventDateTime_def sampleParseISO_def at0901_def review_def
        standup_def)
  from u sample_wf readyStore_reached readyStore_facts(4)
  have m: "idE standup \<in> ids (db readyStore)" "idE (review\<lparr>completed := True\<rparr>) \<in> ids (db readyStore)"
    by simp_all
  with u p have "fst (checkAndUpdatePastEvents sampleParseISO at0901
          [review\<lparr>completed := True\<rparr>, standup] (db readyStore)) =
     Inr [review\<lparr>completed := True\<rparr>, standup\<lparr>completed := True\<rparr>]"
    by simp
  with t sample_pastDue sample_wf i c m readyStore_facts(4) show ?thesis by simp
qed

subsection \<open>Fetching within and after the time-to-live\<close>

lemma catchError_Inr: "fst r = Inr () \<Longrightarrow> catchError r = r"
  by (cases r) (simp add: catchError_def)

lemma fetch_hit:
  assumes "consistent st" "isDBReady st" "map_of (cache st) (cacheKey (selectedDate st)) = Some entry"
      and "getTime now - timestamp entry < 5000"
  shows "snd (fetchEvents P now st) =
     st\<lparr>loading := False, error := None,
        db := snd (checkAndUpdatePastEvents P now (entry_events entry) (db st)),
        events := map (markCompleted P now) (entry_events entry)\<rparr>"
proof -
  let ?st0 = "st\<lparr>loading := True, error := None\<rparr>"
  have "consistent ?st0" "isDBReady ?st0" "map_of (cache ?st0) (cacheKey (selectedDate ?st0)) = Some entry"
    using assms by simp_all
  from refresh_hit_consistent [OF this assms(4), of P] assms(2) show ?thesis
    by (simp add: fetchEvents_def catchError_def)
qed

lemma fetch_miss:
  assumes "isDBReady st" "\<not> isCacheValid now (cache st) (cacheKey (selectedDate st))"
  shows "\<exists>q. isQuery q \<and> queries (db (snd (fetchEvents P now st))) = queries (db st) @ [q]"
    and "cache (snd (fetchEvents P now st)) =
           AList.update (cacheKey (selectedDate st))
              \<lparr>timestamp = getTime now, entry_events = events (snd (fetchEvents P now st))\<rparr>
              (cache st)"
    and "events (snd (fetchEvents P now st)) =
           map (markCompleted P now) (fst (queryEvents (selectedDate st) (db st)))"
    and "selectedDate (snd (fetchEvents P now st)) = selectedDate st"
    and "isDBReady (snd (fetchEvents P now st))"
proof -
  let ?st0 = "st\<lparr>loading := True, error := None\<rparr>"
  have a: "isDBReady ?st0" "\<not> isCacheValid now (cache ?st0) (cacheKey (selectedDate ?st0))"
    using assms by simp_all
  note f = refresh_miss_facts [OF a, of P]
  have e: "snd (fetchEvents P now st) = snd (refreshEvents P now ?st0)"
    using assms(1) f(1) by (simp add: fetchEvents_def catchError_Inr)
  show "\<exists>q. isQuery q \<and> queries (db (snd (fetchEvents P now st))) = queries (db st) @ [q]"
    using f(4) e by simp
  show "cache (snd (fetchEvents P now st)) =
           AList.update (cacheKey (selectedDate st))
              \<lparr>timestamp = getTime now, entry_events = events (snd (fetchEvents P now st))\<rparr>
              (cache st)"
    using f(3) e by simp
  show "events (snd (fetchEvents P now st)) =
           map (markCompleted P now) (fst (queryEvents (selectedDate st) (db st)))"
    using f(2) e by simp
  show "selectedDate (snd (fetchEvents P now st)) = selectedDate st"
    using f(7) e by simp
  show "isDBReady (snd (fetchEvents P now st))"
    using f(8) e by simp
qed

text \<open>
  C5. In every state the store can reach, once it is initialized: a cache entry for a key
  is valid if and only if it exists and \<open>now\<close> minus its timestamp is strictly less than
  5000 ms. \<^verbatim>\<open>fetchEvents()\<close> with a valid entry for the current key issues no query on the
  Record Store (no \<^verbatim>\<open>getAll\<close>; the reconcile pass may still update past-due records),
  leaves the cache as it is and publishes the cached snapshot after the reconcile pass;
  without a valid entry it issues one query and stores the published list under the key
  with the timestamp \<open>now\<close>. So a second \<^verbatim>\<open>fetchEvents()\<close> less than
  5000 ms after a fetch that queried issues no second query and is served from the
  snapshot of the first, and one 5000 ms or more after it issues a new query.
\<close>

theorem C5_cache_ttl:
  assumes "wf_db d" "st = run P acts (initialStore d h)" "isDBReady st"
  shows
   "(isCacheValid now (cache st) k \<longleftrightarrow>
       (\<exists>entry. map_of (cache st) k = Some entry \<and> getTime now - timestamp entry < 5000)) \<and>
    (\<forall>entry. map_of (cache st) (cacheKey (selectedDate st)) = Some entry \<and>
         getTime now - timestamp entry < 5000 \<longrightarrow>
       queries (db (snd (fetchEvents P now st))) = queries (db st) \<and>
       cache (snd (fetchEvents P now st)) = cache st \<and>
       events (snd (fetchEvents P now st)) = map (markCompleted P now) (entry_events entry)) \<and>
    (\<not> (\<exists>entry. map_of (cache st) (cacheKey (selectedDate st)) = Some entry \<and>
           getTime now - timestamp entry < 5000) \<longrightarrow>
       (\<exists>q. isQuery q \<and> queries (db (snd (fetchEvents P now st))) = queries (db st) @ [q]) \<and>
       map_of (cache (snd (fetchEvents P now st))) (cacheKey (selectedDate st)) =
         Some \<lparr>timestamp = getTime now, entry_events = events (snd (fetchEvents P now st))\<rparr> \<and>
       (\<forall>later. getTime later - getTime now < 5000 \<longrightarrow>
          queries (db (snd (fetchEvents P later (snd (fetchEvents P now st))))) =
            queries (db (snd (fetchEvents P now st))) \<and>
          events (snd (fetchEvents P later (snd (fetchEvents P now st)))) =
            map (markCompleted P later) (events (snd (fetchEvents P now st)))) \<and>
       (\<forall>later. \<not> getTime later - getTime now < 5000 \<longrightarrow>
          (\<exists>q. isQuery q \<and>
             queries (db (snd (fetchEvents P later (snd (fetchEvents P now st))))) =
               queries (db (snd (fetchEvents P now st))) @ [q])))"
proof -
  have cs: "consistent st"
    unfolding assms(2) by (rule run_consistent [OF consistent_initial [OF assms(1)]])
  note ready = assms(3)
  have valid: "isCacheValid now (cache st) k \<longleftrightarrow>
       (\<exists>entry. map_of (cache st) k = Some entry \<and> getTime now - timestamp entry < 5000)"
    by (rule isCacheValid_iff)
  have hit: "queries (db (snd (fetchEvents P now st))) = queries (db st) \<and>
       cache (snd (fetchEvents P now st)) = cache st \<and>
       events (snd (fetchEvents P now st)) = map (markCompleted P now) (entry_events entry)"
    if "map_of (cache st) (cacheKey (selectedDate st)) = Some entry \<and>
         getTime now - timestamp entry < 5000" for entry
  proof -
    from that have h1: "map_of (cache st) (cacheKey (selectedDate st)) = Some entry"
      and h2: "getTime now - timestamp entry < 5000" by simp_all
    note e = fetch_hit [OF cs ready h1 h2, of P]
    show ?thesis by (simp add: e queries_checkAndUpdate)
  qed
  have miss: "(\<exists>q. isQuery q \<and> queries (db (snd (fetchEvents P now st))) = queries (db st) @ [q]) \<and>
       map_of (cache (snd (fetchEvents P now st))) (cacheKey (selectedDate st)) =
         Some \<lparr>timestamp = getTime now, entry_events = events (snd (fetchEvents P now st))\<rparr> \<and>
       (\<forall>later. getTime later - getTime now < 5000 \<longrightarrow>
          queries (db (snd (fetchEvents P later (snd (fetchEvents P now st))))) =
            queries (db (snd (fetchEvents P now st))) \<and>
          events (snd (fetchEvents P later (snd (fetchEvents P now st)))) =
            map (markCompleted P later) (events (snd (fetchEvents P now st)))) \<and>
       (\<forall>later. \<not> getTime later - getTime now < 5000 \<longrightarrow>
          (\<exists>q. isQuery q \<and>
             queries (db (snd (fetchEvents P later (snd (fetchEvents P now st))))) =
               queries (db (snd (fetchEvents P now st))) @ [q]))"
    if "\<not> (\<exists>entry. map_of (cache st) (cacheKey (selectedDate st)) = Some entry \<and>
           getTime now - timestamp entry < 5000)"
  proof -
    let ?st1 = "snd (fetchEvents P now st)"
    from that have m: "\<not> isCacheValid now (cache st) (cacheKey (selectedDate st))"
      by (simp add: isCacheValid_iff)
    note f = fetch_miss [OF ready m, of P]
    have c: "map_of (cache ?st1) (cacheKey (selectedDate st)) =
         Some \<lparr>timestamp = getTime now, entry_events = events ?st1\<rparr>"
      by (subst f(2)) (simp add: update_conv)
    have c1: "consistent ?st1" by (rule fetchEvents_consistent [OF cs])
    have k: "map_of (cache ?st1) (cacheKey (selectedDate ?st1)) =
         Some \<lparr>timestamp = getTime now, entry_events = events ?st1\<rparr>"
      using c f(4) by simp
    have within: "queries (db (snd (fetchEvents P later ?st1))) = queries (db ?st1) \<and>
        events (snd (fetchEvents P later ?st1)) = map (markCompleted P later) (events ?st1)"
      if "getTime later - getTime now < 5000" for later :: jsDate
    proof -
      from that
      have "getTime later - timestamp \<lparr>timestamp = getTime now, entry_events = events ?st1\<rparr> < 5000"
        by simp
      note e = fetch_hit [OF c1 f(5) k this, of P]
      show ?thesis by (simp add: e queries_checkAndUpdate)
    qed
    have after: "\<exists>q. isQuery q \<and>
        queries (db (snd (fetchEvents P later ?st1))) = queries (db ?st1) @ [q]"
      if "\<not> getTime later - getTime now < 5000" for later :: jsDate
    proof -
      have "\<not> isCacheValid later (cache ?st1) (cacheKey (selectedDate ?st1))"
        using k that by (simp add: isCacheValid_iff)
      from fetch_miss(1) [OF f(5) this, of P] show ?thesis .
    qed
    from f(1) c within after show ?thesis by blast
  qed
  from valid hit miss show ?thesis by blast
qed

theorem C5_cache_ttl_witness:
  "wf_db sampleDb \<and> isDBReady readyStore \<and>
   map_of (cache readyStore) (cacheKey (selectedDate readyStore)) =
     Some \<lparr>timestamp = getTime at0800, entry_events = [review\<lparr>completed := True\<rparr>, standup]\<rparr> \<and>
   getTime at0800 - getTime at0800 < 5000 \<and>
   queries (db (snd (fetchEvents sampleParseISO at0800 readyStore))) = [GetAll] \<and>
   \<not> getTime at0900 - getTime at0800 < 5000 \<and>
   queries (db (snd (fetchEvents sampleParseISO at0900 readyStore))) = [GetAll, GetAll] \<and>
   getTime at090002 - getTime at0900 < 5000 \<and>
   queries (db (snd (fetchEvents sampleParseISO at090002
       (snd (fetchEvents sampleParseISO at0900 readyStore))))) = [GetAll, GetAll] \<and>
   \<not> getTime at0901 - getTime at0900 < 5000 \<and>
   queries (db (snd (fetchEvents sampleParseISO at0901
       (snd (fetchEvents sampleParseISO at0900 readyStore))))) = [GetAll, GetAll, GetAll]"
proof -
  note hit = C5_cache_ttl [OF sample_wf readyStore_reached readyStore_facts(1),
      of at0800 "''all''"]
  note miss = C5_cache_ttl [OF sample_wf readyStore_reached readyStore_facts(1),
      of at0900 "''all''"]
  have t: "getTime at0800 - getTime at0800 < 5000" "\<not> getTime at0900 - getTime at0800 < 5000"
    "getTime at090002 - getTime at0900 < 5000" "\<not> getTime at0901 - getTime at0900 < 5000"
    by (simp_all add: at0800_def at0900_def at090002_def at0901_def)
  have ts: "timestamp \<lparr>timestamp = getTime at0800, entry_events = [review\<lparr>completed := True\<rparr>, standup]\<rparr> = getTime at0800"
    by simp
  from hit readyStore_facts(4,5) t(1) ts
  have a: "queries (db (snd (fetchEvents sampleParseISO at0800 readyStore))) = [GetAll]"
    by simp
  have n: "\<not> (\<exists>entry. map_of (cache readyStore) (cacheKey (selectedDate readyStore)) = Some entry \<and>
           getTime at0900 - timestamp entry < 5000)"
    using readyStore_facts(4) t(2) by simp
  have b: "queries (db (snd (fetchEvents sampleParseISO at0900 readyStore))) = [GetAll, GetAll]"
    by code_simp
  from miss n t(3) have "queries (db (snd (fetchEvents sampleParseISO at090002
       (snd (fetchEvents sampleParseISO at0900 readyStore))))) =
       queries (db (snd (fetchEvents sampleParseISO at0900 readyStore)))"
    by blast
  with b have c: "queries (db (snd (fetchEvents sampleParseISO at090002
       (snd (fetchEvents sampleParseISO at0900 readyStore))))) = [GetAll, GetAll]"
    by simp
  have d: "queries (db (snd (fetchEvents sampleParseISO at0901
       (snd (fetchEvents sampleParseISO at0900 readyStore))))) = [GetAll, GetAll, GetAll]"
    by code_simp
  from sample_wf readyStore_facts(1,4) t a b c d show ?thesis by simp
qed

subsection \<open>Mutations empty the cache\<close>

lemma invalidate_refresh:
  assumes "isDBReady st1" "error st1 = None"
  shows "cache (snd (catchError (refreshEvents P now (st1\<lparr>cache := invalidateCache c\<rparr>)))) =
           [(cacheKey (selectedDate st1),
             \<lparr>timestamp = getTime now,
              entry_events = events (snd (catchError (refreshEvents P now (st1\<lparr>cache := invalidateCache c\<rparr>))))\<rparr>)]"
    and "\<exists>q. isQuery q \<and>
           queries (db (snd (catchError (refreshEvents P now (st1\<lparr>cache := invalidateCache c\<rparr>))))) =
             queries (db st1) @ [q]"
    and "events (snd (catchError (refreshEvents P now (st1\<lparr>cache := invalidateCache c\<rparr>)))) =
           map (markCompleted P now) (fst (queryEvents (selectedDate st1) (db st1)))"
    and "error (snd (catchError (refreshEvents P now (st1\<lparr>cache := invalidateCache c\<rparr>)))) = None"
    and "fst (catchError (refreshEvents P now (st1\<lparr>cache := invalidateCache c\<rparr>))) = Inr ()"
    and "sameKeys (db st1)
           (db (snd (catchError (refreshEvents P now (st1\<lparr>cache := invalidateCache c\<rparr>)))))"
proof -
  let ?st2 = "st1\<lparr>cache := invalidateCache c\<rparr>"
  have a: "isDBReady ?st2" "\<not> isCacheValid now (cache ?st2) (cacheKey (selectedDate ?st2))"
    using assms(1) by (simp_all add: invalidateCache_empty isCacheValid_def)
  note f = refresh_miss_facts [OF a, of P]
  have e: "catchError (refreshEvents P now ?st2) = refreshEvents P now ?st2"
    by (rule catchError_Inr [OF f(1)])
  show "cache (snd (catchError (refreshEvents P now ?st2))) =
           [(cacheKey (selectedDate st1),
             \<lparr>timestamp = getTime now,
              entry_events = events (snd (catchError (refreshEvents P now ?st2)))\<rparr>)]"
    unfolding e using f(3) by (simp add: invalidateCache_empty)
  show "\<exists>q. isQuery q \<and>
           queries (db (snd (catchError (refreshEvents P now ?st2)))) = queries (db st1) @ [q]"
    unfolding e using f(4) by simp
  show "events (snd (catchError (refreshEvents P now ?st2))) =
           map (markCompleted P now) (fst (queryEvents (selectedDate st1) (db st1)))"
    unfolding e using f(2) by simp
  show "error (snd (catchError (refreshEvents P now ?st2))) = None"
    unfolding e using f(5) assms(2) by simp
  show "fst (catchError (refreshEvents P now ?st2)) = Inr ()"
    unfolding e using f(1) by simp
  show "sameKeys (db st1) (db (snd (catchError (refreshEvents P now ?st2))))"
    unfolding e using f(9) by simp
qed

lemma catchError_Inl: "error (snd (catchError (Inl err, s))) = Some (message err)"
  by (simp add: catchError_def)

lemma addEvent_success:
  assumes "isDBReady st" "accepted now (AddEvent ev) st"
  shows "\<exists>st1. beforeRefresh st st1 \<and>
     addEvent P now ev st =
       catchError (refreshEvents P now (st1\<lparr>cache := invalidateCache (cache st1)\<rparr>))"
proof -
  obtain r d1 where a: "db_addEvent now ev (db st) = (r, d1)" by (cases "db_addEvent now ev (db st)")
  show ?thesis
  proof (cases r)
    case (Inl err)
    with a assms show ?thesis by simp
  next
    case (Inr k)
    let ?st1 = "st\<lparr>loading := True, error := None, db := d1\<rparr>"
    have "queries d1 = queries (db st)" using queries_addEvent [of now ev "db st"] a by simp
    then have "beforeRefresh st ?st1" using assms(1) by (simp add: beforeRefresh_def)
    moreover have "addEvent P now ev st =
        catchError (refreshEvents P now (?st1\<lparr>cache := invalidateCache (cache ?st1)\<rparr>))"
      using assms(1) a Inr by (simp add: addEvent_def)
    ultimately show ?thesis by blast
  qed
qed

lemma updateEvent_success:
  assumes "isDBReady st" "accepted now (UpdateEvent i u) st"
  shows "\<exists>st1. beforeRefresh st st1 \<and>
     updateEvent P now i u st =
       catchError (refreshEvents P now (st1\<lparr>cache := invalidateCache (cache st1)\<rparr>))"
proof -
  obtain r d1 where a: "db_updateEvent now i u (db st) = (r, d1)"
    by (cases "db_updateEvent now i u (db st)")
  show ?thesis
  proof (cases r)
    case (Inl err)
    with a assms show ?thesis by simp
  next
    case (Inr k)
    let ?st1 = "cancelScheduledCheck i (st\<lparr>loading := True, error := None, db := d1\<rparr>)"
    have "queries d1 = queries (db st)" using queries_updateEvent [of now i u "db st"] a by simp
    then have "beforeRefresh st ?st1" using assms(1) by (simp add: beforeRefresh_def)
    moreover have "updateEvent P now i u st =
        catchError (refreshEvents P now (?st1\<lparr>cache := invalidateCache (cache ?st1)\<rparr>))"
      using assms(1) a Inr by (simp add: updateEvent_def Let_def)
    ultimately show ?thesis by blast
  qed
qed

lemma deleteEvent_success:
  assumes "isDBReady st"
  shows "\<exists>st1. beforeRefresh st st1 \<and>
     sameKeys (snd (db_deleteEvent i (db st))) (db st1) \<and>
     records (db st1) = records (snd (db_deleteEvent i (db st))) \<and>
     deleteEvent P now i st =
       catchError (refreshEvents P now (st1\<lparr>cache := invalidateCache (cache st1)\<rparr>))"
proof -
  let ?st1 = "(cancelScheduledCheck i (st\<lparr>loading := True, error := None\<rparr>))
                \<lparr>db := snd (db_deleteEvent i (db st))\<rparr>"
  have "beforeRefresh st ?st1"
    using assms by (simp add: beforeRefresh_def queries_deleteEvent)
  moreover have "sameKeys (snd (db_deleteEvent i (db st))) (db ?st1)"
    "records (db ?st1) = records (snd (db_deleteEvent i (db st)))"
    by (simp_all add: sameKeys_refl)
  moreover have "deleteEvent P now i st =
        catchError (refreshEvents P now (?st1\<lparr>cache := invalidateCache (cache ?st1)\<rparr>))"
    using assms by (simp add: deleteEvent_def Let_def db_deleteEvent_def)
  ultimately show ?thesis by blast
qed

lemma markEventAsCompleted_success:
  assumes "isDBReady st" "accepted now (MarkEventAsCompleted i c) st"
  shows "\<exists>st1. beforeRefresh st st1 \<and>
     markEventAsCompleted P now i c st =
       catchError (refreshEvents P now (st1\<lparr>cache := invalidateCache (cache st1)\<rparr>))"
proof -
  obtain r d1 where a: "db_markEventAsCompleted now i c (db st) = (r, d1)"
    by (cases "db_markEventAsCompleted now i c (db st)")
  let ?st0 = "st\<lparr>loading := True, error := None\<rparr>"
  let ?st1 = "(if c then cancelScheduledCheck i ?st0 else ?st0)\<lparr>db := d1\<rparr>"
  show ?thesis
  proof (cases r)
    case (Inl err)
    with a assms show ?thesis by simp
  next
    case (Inr k)
    have "queries d1 = queries (db st)"
      using queries_markEventAsCompleted [of now i c "db st"] a by simp
    then have "beforeRefresh st ?st1" using assms(1) by (simp add: beforeRefresh_def)
    moreover have "markEventAsCompleted P now i c st =
        catchError (refreshEvents P now (?st1\<lparr>cache := invalidateCache (cache ?st1)\<rparr>))"
      using assms(1) a Inr by (cases c) (simp_all add: markEventAsCompleted_def Let_def)
    ultimately show ?thesis by blast
  qed
qed

lemma mutation_success:
  assumes "isDBReady st" "isMutation a" "accepted now a st"
  shows "\<exists>st1. beforeRefresh st st1 \<and>
     perform P now a st =
       snd (catchError (refreshEvents P now (st1\<lparr>cache := invalidateCache (cache st1)\<rparr>)))"
proof (cases a)
  case (AddEvent ev)
  with assms addEvent_success [where st = st and P = P and now = now and ev = ev]
  show ?thesis by auto
next
  case (UpdateEvent i u)
  with assms updateEvent_success [where st = st and P = P and now = now and i = i and u = u]
  show ?thesis by auto
next
  case (DeleteEvent i)
  with assms deleteEvent_success [where st = st and P = P and now = now and i = i]
  show ?thesis by auto
next
  case (MarkEventAsCompleted i c)
  with assms markEventAsCompleted_success [where st = st and P = P and now = now and i = i and c = c]
  show ?thesis by auto
qed (use assms in simp_all)


lemma mutation_rejected:
  assumes "isDBReady st" "isMutation a" "\<not> accepted now a st"
  shows "error (perform P now a st) \<noteq> None"
proof (cases a)
  case (AddEvent ev)
  obtain r d1 where b: "db_addEvent now ev (db st) = (r, d1)" by (cases "db_addEvent now ev (db st)")
  with assms AddEvent obtain err where "r = Inl err" by (cases r) simp_all
  with assms(1) AddEvent b show ?thesis by (simp add: addEvent_def catchError_def)
next
  case (UpdateEvent i u)
  obtain r d1 where b: "db_updateEvent now i u (db st) = (r, d1)"
    by (cases "db_updateEvent now i u (db st)")
  with assms UpdateEvent obtain err where "r = Inl err" by (cases r) simp_all
  with assms(1) UpdateEvent b show ?thesis by (simp add: updateEvent_def catchError_def)
next
  case (DeleteEvent i)
  with assms show ?thesis by (simp add: db_deleteEvent_def)
next
  case (MarkEventAsCompleted i c)
  obtain r d1 where b: "db_markEventAsCompleted now i c (db st) = (r, d1)"
    by (cases "db_markEventAsCompleted now i c (db st)")
  with assms MarkEventAsCompleted obtain err where "r = Inl err" by (cases r) simp_all
  with assms(1) MarkEventAsCompleted b show ?thesis
    by (cases c) (simp_all add: markEventAsCompleted_def Let_def catchError_def)
qed (use assms in simp_all)
text \<open>
  C6. An \<^verbatim>\<open>addEvent\<close>, \<^verbatim>\<open>updateEvent\<close>, \<^verbatim>\<open>deleteEvent\<close> or \<^verbatim>\<open>markEventAsCompleted\<close> on an
  initialized store is successful (the Record Store accepts its write) exactly when it
  publishes no error. Every successful one removes every entry of the cache, whatever its
  key and its remaining time to live: the refresh that follows queries the Record Store,
  and the cache then holds nothing but the entry this refresh stores for the current key,
  with the timestamp \<open>now\<close>.
\<close>

theorem C6_mutations_invalidate:
  assumes "isDBReady st" "isMutation a"
  shows "(accepted now a st \<longleftrightarrow> error (perform P now a st) = None) \<and>
         (accepted now a st \<longrightarrow>
            cache (perform P now a st) =
              [(cacheKey (selectedDate st),
                \<lparr>timestamp = getTime now, entry_events = events (perform P now a st)\<rparr>)] \<and>
            (\<exists>q. isQuery q \<and> queries (db (perform P now a st)) = queries (db st) @ [q]))"
proof (cases "accepted now a st")
  case False
  with mutation_rejected [OF assms, of now P] show ?thesis by simp
next
  case True
  from mutation_success [OF assms True] obtain st1 where b: "beforeRefresh st st1"
    and e: "perform P now a st =
       snd (catchError (refreshEvents P now (st1\<lparr>cache := invalidateCache (cache st1)\<rparr>)))"
    by blast
  from b have r: "isDBReady st1" "error st1 = None" "selectedDate st1 = selectedDate st"
    "queries (db st1) = queries (db st)" by (simp_all add: beforeRefresh_def)
  from invalidate_refresh(1,2,4) [OF r(1,2), of P now "cache st1"] r(3,4) True show ?thesis
    by (simp add: e)
qed

theorem C6_mutations_invalidate_witness:
  "isDBReady readyStore \<and> isMutation (MarkEventAsCompleted 1 True) \<and>
   accepted at0800 (MarkEventAsCompleted 1 True) readyStore \<and>
   error (perform sampleParseISO at0800 (MarkEventAsCompleted 1 True) readyStore) = None \<and>
   isCacheValid at0800 (cache readyStore) ''all'' \<and>
   cache (perform sampleParseISO at0800 (MarkEventAsCompleted 1 True) readyStore) =
     [(''all'', \<lparr>timestamp = getTime at0800,
        entry_events = events (perform sampleParseISO at0800 (MarkEventAsCompleted 1 True) readyStore)\<rparr>)] \<and>
   queries (db (perform sampleParseISO at0800 (MarkEventAsCompleted 1 True) readyStore)) =
     [GetAll, GetAll] \<and>
   map completed (events (perform sampleParseISO at0800 (MarkEventAsCompleted 1 True) readyStore)) =
     [True, True]"
proof -
  have h: "isMutation (MarkEventAsCompleted 1 True)"
    "accepted at0800 (MarkEventAsCompleted 1 True) readyStore"
    "isCacheValid at0800 (cache readyStore) ''all''"
    "cacheKey (selectedDate readyStore) = ''all''"
    by code_simp+
  have q: "queries (db (perform sampleParseISO at0800 (MarkEventAsCompleted 1 True) readyStore)) =
     [GetAll, GetAll]"
    "map completed (events (perform sampleParseISO at0800 (MarkEventAsCompleted 1 True) readyStore)) =
     [True, True]"
    by code_simp+
  from C6_mutations_invalidate [OF readyStore_facts(1) h(1), of at0800 sampleParseISO] h q
    readyStore_facts(1)
  show ?thesis by simp
qed

subsection \<open>Deleting a key that is not stored\<close>

lemma deleteEvent_absent:
  "i \<notin> ids d \<Longrightarrow> records (snd (db_deleteEvent i d)) = records d"
  by (auto simp: db_deleteEvent_def issue_def ids_def intro: filter_True)

text \<open>
  C9 does not hold as stated. The Record Store accepts the delete of a key it does not
  hold (\<^verbatim>\<open>store.delete\<close> succeeds on an absent key, and \<^verbatim>\<open>deleteEvent\<close> of the database
  module makes no lookup), so the store publishes no error; and the list it republishes
  can differ from the one published before: here the stand-up has become past due.
\<close>

theorem C9_counterexample:
  "isDBReady readyStore \<and> 42 \<notin> ids (db readyStore) \<and>
   fst (db_deleteEvent 42 (db readyStore)) = Inr () \<and>
   fst (deleteEvent sampleParseISO at0901 42 readyStore) = Inr () \<and>
   error (snd (deleteEvent sampleParseISO at0901 42 readyStore)) = None \<and>
   map completed (events readyStore) = [True, False] \<and>
   map completed (events (snd (deleteEvent sampleParseISO at0901 42 readyStore))) = [True, True]"
  by code_simp

text \<open>
  C9, amended. For every id absent from storage, \<^verbatim>\<open>deleteEvent(id)\<close> on an initialized
  store succeeds: the Record Store accepts the delete and keeps its records, the store
  publishes no error (the error field is null), the keys of the Record Store are the
  same afterwards, and the published events list is the result of a fresh query of the
  current view, with past-due events marked completed.
\<close>

theorem C9_delete_absent_id:
  assumes "isDBReady st" "i \<notin> ids (db st)"
  shows "fst (db_deleteEvent i (db st)) = Inr () \<and>
         records (snd (db_deleteEvent i (db st))) = records (db st) \<and>
         fst (deleteEvent P now i st) = Inr () \<and>
         error (snd (deleteEvent P now i st)) = None \<and>
         ids (db (snd (deleteEvent P now i st))) = ids (db st) \<and>
         events (snd (deleteEvent P now i st)) =
           map (markCompleted P now) (fst (queryEvents (selectedDate st) (db st)))"
proof -
  note a = deleteEvent_absent [OF assms(2)]
  from deleteEvent_success [OF assms(1), of i P now] obtain st1
    where b: "beforeRefresh st st1"
      and k: "sameKeys (snd (db_deleteEvent i (db st))) (db st1)"
      and r: "records (db st1) = records (snd (db_deleteEvent i (db st)))"
      and e: "deleteEvent P now i st =
         catchError (refreshEvents P now (st1\<lparr>cache := invalidateCache (cache st1)\<rparr>))"
    by blast
  from b have r1: "isDBReady st1" "error st1 = None" "selectedDate st1 = selectedDate st"
    by (simp_all add: beforeRefresh_def)
  note f = invalidate_refresh [OF r1(1,2), of P now "cache st1"]
  have "ids (db st1) = ids (db st)" using r a by (simp add: ids_def)
  with sameKeys_ids [OF f(6)] have i: "ids (db (snd (deleteEvent P now i st))) = ids (db st)"
    unfolding e by simp
  have q: "fst (queryEvents (selectedDate st) (db st1)) = fst (queryEvents (selectedDate st) (db st))"
    using r a queryEvents_records [of "db st1" "db st" "selectedDate st"] by simp
  have v: "events (snd (deleteEvent P now i st)) =
           map (markCompleted P now) (fst (queryEvents (selectedDate st) (db st)))"
    unfolding e using f(3) r1(3) q by simp
  have n: "error (snd (deleteEvent P now i st)) = None"
    unfolding e by (rule f(4))
  have o: "fst (deleteEvent P now i st) = Inr ()"
    unfolding e by (rule f(5))
  have "fst (db_deleteEvent i (db st)) = Inr ()" by (simp add: db_deleteEvent_def)
  with a i v n o show ?thesis by blast
qed

theorem C9_delete_absent_id_witness:
  "isDBReady readyStore \<and> 42 \<notin> ids (db readyStore) \<and>
   records (snd (db_deleteEvent 42 (db readyStore))) = records (db readyStore) \<and>
   fst (deleteEvent sampleParseISO at0800 42 readyStore) = Inr () \<and>
   error (snd (deleteEvent sampleParseISO at0800 42 readyStore)) = None \<and>
   ids (db (snd (deleteEvent sampleParseISO at0800 42 readyStore))) = ids (db readyStore) \<and>
   map idE (events (snd (deleteEvent sampleParseISO at0800 42 readyStore))) = [2, 1]"
proof -
  have a: "42 \<notin> ids (db readyStore)" by code_simp
  have b: "map idE (events (snd (deleteEvent sampleParseISO at0800 42 readyStore))) = [2, 1]"
    by code_simp
  from C9_delete_absent_id [OF readyStore_facts(1) a, of sampleParseISO at0800] a b
    readyStore_facts(1)
  show ?thesis by simp
qed

subsection \<open>One timer for each event\<close>

lemma schedule_exactly_one:
  assumes "registered st" "armed P now e"
  shows "filter (\<lambda>t. event_id t = idE e) (timers (scheduleEventCheck P now e st)) =
     [\<lparr>handle = nextHandle st, event_id = idE e,
       delay = map_option (\<lambda>t. t - getTime now) (eventDateTime P e),
       setAt = getTime now\<rparr>]"
proof -
  have "filter (\<lambda>t. event_id t = idE e) (timers (cancelScheduledCheck (idE e) st)) = []"
    using cancel_no_timer [OF assms(1), of _ "idE e"] by (auto simp: filter_empty_conv)
  with schedule_armed [OF assms(2), of st] show ?thesis by simp
qed

lemma find_fresh:
  "distinct (map handle ts) \<Longrightarrow> t \<in> set ts \<Longrightarrow> find (\<lambda>x. handle x = handle t) ts = Some t"
  by (induction ts) (auto simp: image_iff)

lemma refresh_keeps_completed:
  assumes "\<forall>r \<in> set (records (db st)). idE r = i \<longrightarrow> completed r"
  shows "\<forall>r \<in> set (records (db (snd (refreshEvents P now st)))). idE r = i \<longrightarrow> completed r"
proof (cases "isDBReady st")
  case False
  with assms show ?thesis by (simp add: refresh_not_ready)
next
  case True
  show ?thesis
  proof (cases "isCacheValid now (cache st) (cacheKey (selectedDate st))")
    case valid: True
    then obtain entry where e: "map_of (cache st) (cacheKey (selectedDate st)) = Some entry"
        "getTime now - timestamp entry < 5000"
      by (auto simp: isCacheValid_iff)
    from checkAndUpdate_keeps [OF assms, of P now "entry_events entry"] show ?thesis
      by (simp add: refresh_hit [OF True e] split: sum.splits)
  next
    case False
    have "records (snd (queryEvents (selectedDate st) (db st))) = records (db st)"
      by (simp add: queryEvents_db issue_def)
    with assms have "\<forall>r \<in> set (records (snd (queryEvents (selectedDate st) (db st)))).
        idE r = i \<longrightarrow> completed r" by simp
    from checkAndUpdate_keeps [OF this, of P now "fst (queryEvents (selectedDate st) (db st))"]
    show ?thesis by (simp add: refresh_miss [OF True False])
  qed
qed

lemma fireTimer_facts:
  assumes "consistent s" "x \<in> set (timers s)"
  shows "fireTimer P now (handle x) s =
     (snd (refreshEvents P now
        (s\<lparr>timers := clearTimeout (handle x) (timers s),
            db := snd (db_markEventAsCompleted now (event_id x) True (db s))\<rparr>)))
     \<lparr>scheduledChecks := AList.delete (event_id x)
        (scheduledChecks (snd (refreshEvents P now
           (s\<lparr>timers := clearTimeout (handle x) (timers s),
               db := snd (db_markEventAsCompleted now (event_id x) True (db s))\<rparr>))))\<rparr>"
    and "\<forall>r \<in> set (records (snd (db_markEventAsCompleted now (event_id x) True (db s)))).
           idE r = event_id x \<longrightarrow> completed r"
    and "\<forall>r \<in> set (records (db (fireTimer P now (handle x) s))). idE r = event_id x \<longrightarrow> completed r"
    and "map_of (scheduledChecks (fireTimer P now (handle x) s)) (event_id x) = None"
    and "\<forall>t \<in> set (timers (fireTimer P now (handle x) s)). event_id t \<noteq> event_id x"
proof -
  let ?i = "event_id x"
  let ?d1 = "snd (db_markEventAsCompleted now ?i True (db s))"
  let ?s1 = "s\<lparr>timers := clearTimeout (handle x) (timers s), db := ?d1\<rparr>"
  let ?s2 = "snd (refreshEvents P now ?s1)"
  from assms(1) have w: "wf_db (db s)" and f: "freshHandles s" by (simp_all add: consistent_def)
  from f have "find (\<lambda>t. handle t = handle x) (timers s) = Some x"
    using find_fresh [OF _ assms(2)] by (simp add: freshHandles_def)
  from fireTimer_eq [OF assms(1) this, of P now]
  show e: "fireTimer P now (handle x) s =
      ?s2\<lparr>scheduledChecks := AList.delete ?i (scheduledChecks ?s2)\<rparr>" .
  show c: "\<forall>r \<in> set (records ?d1). idE r = ?i \<longrightarrow> completed r"
    using markEventAsCompleted_completed [OF w, of _ now ?i] by simp
  then have c1: "\<forall>r \<in> set (records (db ?s1)). idE r = ?i \<longrightarrow> completed r" by simp
  from refresh_keeps_completed [OF c1, of P now]
  show "\<forall>r \<in> set (records (db (fireTimer P now (handle x) s))). idE r = ?i \<longrightarrow> completed r"
    by (simp add: e)
  show "map_of (scheduledChecks (fireTimer P now (handle x) s)) ?i = None"
    by (simp add: e delete_conv)
  have "\<forall>t \<in> set (timers ?s1). event_id t \<noteq> ?i"
    using fired_consistent(2) [OF assms] by simp
  from refresh_no_timer [OF c1 this, of P now]
  show "\<forall>t \<in> set (timers (fireTimer P now (handle x) s)). event_id t \<noteq> ?i"
    by (simp add: e)
qed
text \<open>
  C7. In every state the store reaches from its initial state by any sequence of its
  operations and timer firings (the object store having unique keys), the pending
  timeouts have pairwise different event ids, and each is the one \<^verbatim>\<open>scheduledChecks\<close>
  registers for its event. Arming a timer for an event leaves exactly one pending timeout
  for it, the new one; a timeout that fires leaves no registry entry and no pending
  timeout for its event; \<^verbatim>\<open>cleanup\<close> leaves no pending timeout and an empty registry.
\<close>

theorem C7_one_timer_per_event:
  assumes "wf_db d" "st = run P acts (initialStore d h)"
  shows "distinct (map event_id (timers st)) \<and>
     (\<forall>t \<in> set (timers st). map_of (scheduledChecks st) (event_id t) = Some (handle t)) \<and>
     (\<forall>now e. armed P now e \<longrightarrow>
        filter (\<lambda>t. event_id t = idE e) (timers (scheduleEventCheck P now e st)) =
          [\<lparr>handle = nextHandle st, event_id = idE e,
            delay = map_option (\<lambda>t. t - getTime now) (eventDateTime P e),
            setAt = getTime now\<rparr>]) \<and>
     (\<forall>now t. t \<in> set (timers st) \<longrightarrow>
        map_of (scheduledChecks (fireTimer P now (handle t) st)) (event_id t) = None \<and>
        (\<forall>t' \<in> set (timers (fireTimer P now (handle t) st)). event_id t' \<noteq> event_id t)) \<and>
     timers (cleanup st) = [] \<and> scheduledChecks (cleanup st) = []"
proof -
  have c: "consistent st"
    unfolding assms(2) by (rule run_consistent [OF consistent_initial [OF assms(1)]])
  then have r: "registered st" and d: "distinct (map event_id (timers st))"
    by (simp_all add: consistent_def)
  from r have "\<forall>t \<in> set (timers st). map_of (scheduledChecks st) (event_id t) = Some (handle t)"
    by (simp add: registered_def)
  moreover have "timers (cleanup st) = []" by (rule cleanup_timers [OF r])
  moreover have "scheduledChecks (cleanup st) = []" by (simp add: cleanup_def)
  ultimately show ?thesis
    using d schedule_exactly_one [OF r] fireTimer_facts(4,5) [OF c] by simp
qed

theorem C7_one_timer_per_event_witness:
  "wf_db sampleDb \<and> timers readyStore = [standupTimer] \<and>
   distinct (map event_id (timers readyStore)) \<and>
   map_of (scheduledChecks readyStore) 1 = Some 0 \<and>
   armed sampleParseISO at0800 standup \<and>
   filter (\<lambda>t. event_id t = 1) (timers (scheduleEventCheck sampleParseISO at0800 standup readyStore)) =
     [\<lparr>handle = nextHandle readyStore, event_id = 1, delay = Some 3600000,
              setAt = getTime at0800\<rparr>] \<and>
   map_of (scheduledChecks (fireTimer sampleParseISO at0900 0 readyStore)) 1 = None \<and>
   timers (fireTimer sampleParseISO at0900 0 readyStore) = [] \<and>
   timers (cleanup readyStore) = [] \<and> scheduledChecks (cleanup readyStore) = []"
proof -
  note t = C7_one_timer_per_event [OF sample_wf readyStore_reached]
  have m: "standupTimer \<in> set (timers readyStore)" by (simp add: readyStore_facts(2))
  have f: "timers (fireTimer sampleParseISO at0900 0 readyStore) = []" by code_simp
  have d: "map_option (\<lambda>t. t - getTime at0800) (eventDateTime sampleParseISO standup) = Some 3600000"
    by code_simp
  from t have "distinct (map event_id (timers readyStore))" by blast
  moreover from t m have "map_of (scheduledChecks readyStore) (event_id standupTimer) = Some (handle standupTimer)"
    by blast
  moreover from t sample_armed(1)
  have "filter (\<lambda>t. event_id t = idE standup)
          (timers (scheduleEventCheck sampleParseISO at0800 standup readyStore)) =
        [\<lparr>handle = nextHandle readyStore, event_id = idE standup,
          delay = map_option (\<lambda>t. t - getTime at0800) (eventDateTime sampleParseISO standup),
          setAt = getTime at0800\<rparr>]"
    by blast
  moreover from t m
  have "map_of (scheduledChecks (fireTimer sampleParseISO at0900 (handle standupTimer) readyStore))
          (event_id standupTimer) = None"
    by blast
  moreover from t have "timers (cleanup readyStore) = []" "scheduledChecks (cleanup readyStore) = []"
    by blast+
  ultimately show ?thesis
    using sample_wf readyStore_facts(2) sample_armed(1,2) f d standupTimer_fields by simp
qed

subsection \<open>When a timeout is due\<close>


lemma timerDelay_overflow:
  "2147483647 < n \<Longrightarrow> n < 4294967296 \<Longrightarrow> timerDelay (Some n) = 0"
  by (simp add: timerDelay_def toInt32_def)

lemma timerDelay_NaN: "timerDelay None = 0"
  by (simp add: timerDelay_def)


lemma timerTask_step:
  "timerTask P now h st = st \<or> timerTask P now h st = perform P now (TimerFires h) st"
  by (simp add: timerTask_def split: option.splits)

lemma schedule_due:
  assumes "\<not> completed e" "eventDateTime P e = Some t" "getTime now \<le> t"
  shows "\<exists>x. timers (scheduleEventCheck P now e st) = timers (cancelScheduledCheck (idE e) st) @ [x] \<and>
     dueAt x = getTime now + timerDelay (Some (t - getTime now))"
proof -
  from assms have "armed P now e" by (simp add: armed_def isBefore_iff)
  from schedule_armed [OF this, of st] assms(2) show ?thesis by (simp add: dueAt_def)
qed

text \<open>
  Outside the range of a timeout the delay is not the distance to the event: a timeout
  armed for an event between \<open>2^31\<close> and \<open>2^32\<close> milliseconds ahead, or for an event whose
  date and time do not parse, is due at once.
\<close>

lemma schedule_far_event:
  assumes "\<not> completed e" "eventDateTime P e = Some t"
      "2147483647 < t - getTime now" "t - getTime now < 4294967296"
  shows "\<exists>x. timers (scheduleEventCheck P now e st) = timers (cancelScheduledCheck (idE e) st) @ [x] \<and>
     dueAt x = getTime now"
  using schedule_due [OF assms(1,2), of now st] timerDelay_overflow [OF assms(3,4)] assms(3) by simp

lemma schedule_invalid_date:
  assumes "\<not> completed e" "eventDateTime P e = None"
  shows "\<exists>x. timers (scheduleEventCheck P now e st) = timers (cancelScheduledCheck (idE e) st) @ [x] \<and>
     dueAt x = getTime now"
proof -
  from assms have "armed P now e" by (simp add: armed_def isBefore_def)
  from schedule_armed [OF this, of st] assms(2) show ?thesis
    by (simp add: dueAt_def timerDelay_NaN)
qed

lemma far_event_sample:
  "eventDateTime sampleParseISO webinar = Some 1739955600000"
  "2147483647 < 1739955600000 - getTime at0900"
  "timers (scheduleEventCheck sampleParseISO at0900 webinar (initialStore sampleDb 0)) =
     [\<lparr>handle = 0, event_id = 3, delay = Some 3456000000, setAt = 1736499600000\<rparr>]"
  "timerDelay (Some 3456000000) = 0"
  "dueAt \<lparr>handle = 0, event_id = 3, delay = Some 3456000000, setAt = 1736499600000\<rparr> =
     getTime at0900"
  by code_simp+



end
